theory Spec2Isabelle
  imports Main "HOL-Library.Multiset"
begin

section \<open>Exceptions\<close>

text \<open>
  The exceptions that the modelled functions raise or let through. \<open>CancelledError\<close>
  is asyncio's cancellation signal; \<open>OtherException\<close> stands for any other instance of
  Python's \<open>Exception\<close> class; \<open>NonException\<close> stands for a \<open>BaseException\<close> that
  is not an \<open>Exception\<close> (KeyboardInterrupt, SystemExit), which \<open>except Exception\<close>
  does not catch.
\<close>

datatype error =
    EpisodeNotFound int int
  | StreamNotFound
  | InvalidRequest
  | CancelledError
  | KeyError
  | ValueError
  | TypeError
  | OtherException string
  | NonException string

section \<open>The race selector: \<open>get_first\<close> (models.py, lines 39-53)\<close>

text \<open>
  \<^verbatim>\<open>asyncio.wait(coros, return_when=FIRST_COMPLETED)\<close> returns a pair of sets
  \<open>(done, pending)\<close>. The set \<open>done\<close> holds every computation that has finished when
  the waiter wakes up: at least one, and more than one whenever several finish in the same
  turn of the event loop. A run of the race is therefore given by its list of rounds: the
  successive \<open>done\<close> sets, each listed in the order in which the set iterates; the
  \<open>pending\<close> set after a round is what the later rounds hold.

  The source reads only \<^verbatim>\<open>next(iter(done))\<close>, the first member of \<open>done\<close>, calls
  \<open>.result()\<close> on it (which re-raises an exception the computation ended with), tests
  the predicate on it and, when the test succeeds, cancels every member of \<open>pending\<close>
  and returns. The function returns the outcome together with the computations it cancelled.
\<close>

fun get_first ::
  "('t \<Rightarrow> error + 'a) \<Rightarrow> ('a \<Rightarrow> bool) \<Rightarrow> 't list list \<Rightarrow> (error + 'a option) \<times> 't list"
where
  "get_first result_of predicate [] = (Inr None, [])"
| "get_first result_of predicate (done_set # coros) =
     (case done_set of
        [] \<Rightarrow> get_first result_of predicate coros
      | t # _ \<Rightarrow>
          (case result_of t of
             Inl e \<Rightarrow> (Inl e, [])
           | Inr result \<Rightarrow>
               if predicate result then (Inr (Some result), concat coros)
               else get_first result_of predicate coros))"

section \<open>Python's list helpers\<close>

text \<open>
  \<^verbatim>\<open>xs.sort(key=k, reverse=True)\<close> and \<^verbatim>\<open>sorted(xs, key=k, reverse=True)\<close>: a stable
  sort in descending key order that keeps the original order of elements with equal keys
  (CPython reverses the list, sorts it stably in ascending order and reverses the result).
\<close>

definition py_sort_reverse :: "('a \<Rightarrow> 'k::linorder) \<Rightarrow> 'a list \<Rightarrow> 'a list" where
  "py_sort_reverse key xs = rev (sort_key key (rev xs))"

text \<open>
  \<^verbatim>\<open>itertools.groupby(xs, key)\<close>: the maximal runs of consecutive elements with equal
  keys, each with its key.
\<close>

function groupby :: "('a \<Rightarrow> 'k) \<Rightarrow> 'a list \<Rightarrow> ('k \<times> 'a list) list" where
  "groupby key [] = []"
| "groupby key (x # xs) =
     (key x, x # takeWhile (\<lambda>y. key y = key x) xs)
       # groupby key (dropWhile (\<lambda>y. key y = key x) xs)"
  by pat_completeness auto
termination
  by (relation "measure (\<lambda>(key, xs). length xs)") (auto simp: length_dropWhile_le less_Suc_eq_le)

section \<open>Memoized attributes\<close>

text \<open>
  Modelled from the spec: the decorator \<open>cached_property\<close> (grobber/decorators.py) is not
  among the sources. Section 4.1 of the specification: the first read of an attribute starts
  the declared computation and stores its value in the attribute's slot; a later read
  returns the stored value without running the computation; a computation that fails leaves
  the slot unset, so the next read runs it again. The slot of a property \<open>p\<close> is the
  instance attribute \<open>_p\<close>, which \<^verbatim>\<open>hasattr\<close> and \<^verbatim>\<open>getattr\<close> read in models.py;
  here it is an \<open>option\<close> field, \<open>None\<close> when the attribute is not set.
\<close>

definition cached_property ::
  "('s \<Rightarrow> 'v option) \<Rightarrow> ('v \<Rightarrow> 's \<Rightarrow> 's) \<Rightarrow> ('s \<Rightarrow> (error + 'v) \<times> 's) \<Rightarrow> 's \<Rightarrow> (error + 'v) \<times> 's"
where
  "cached_property slot store compute self =
     (case slot self of
        Some v \<Rightarrow> (Inr v, self)
      | None \<Rightarrow>
          (case compute self of
             (Inl e, self') \<Rightarrow> (Inl e, self')
           | (Inr v, self') \<Rightarrow> (Inr v, store v self')))"

section \<open>Entities\<close>

text \<open>
  Modelled from the spec: the base class \<open>Expiring\<close> (grobber/stateful.py) is not among
  the sources. Section 3 of the specification gives every entity a dirty flag; models.py
  reads and writes it as the attribute \<open>_dirty\<close>. A class that does not override the
  property \<open>dirty\<close> (Stream) reads and writes that flag alone.
\<close>

record expiring =
  dirty_slot :: bool

definition dirty :: "'a expiring_scheme \<Rightarrow> bool" where
  "dirty self = dirty_slot self"

definition set_dirty :: "bool \<Rightarrow> 'a expiring_scheme \<Rightarrow> 'a expiring_scheme" where
  "set_dirty v self = self\<lparr>dirty_slot := v\<rparr>"

subsection \<open>Stream (models.py, lines 77-187)\<close>

text \<open>
  The class attributes \<open>PRIORITY\<close> and \<open>HOST\<close> and the property \<open>persist\<close> are fixed
  by the provider class. \<open>external\<close> and \<open>links\<close> are abstract asynchronous properties:
  the fields hold what awaiting them yields now, a value or an exception. \<open>req\<close> is the
  URL of the request the stream was built from. The slot fields are the attributes
  \<open>_links\<close>, \<open>_poster\<close> and \<open>_working\<close>; \<open>links_awaited\<close> counts how often the
  body of \<open>working\<close> has awaited \<open>links\<close>. \<open>links_cached\<close> says whether the
  provider class implements \<open>links\<close> as a memoized attribute, as streams/vidstreaming.py
  does: awaiting it then leaves the list in \<open>_links\<close>.
\<close>

record stream = expiring +
  PRIORITY :: int
  HOST :: "string option"
  req :: string
  persist :: bool
  external :: "error + bool"
  links :: "error + string list"
  links_slot :: "string list option"
  poster_slot :: "string option option"
  working_slot :: "bool option"
  links_awaited :: nat
  links_cached :: bool

text \<open>\<^verbatim>\<open>except Exception\<close> catches every exception but a bare \<open>BaseException\<close>.\<close>

fun is_Exception :: "error \<Rightarrow> bool" where
  "is_Exception (NonException _) = False"
| "is_Exception _ = True"

text \<open>
  The body of \<open>Stream.working\<close> (lines 134-140): the length test on the awaited links,
  \<open>False\<close> on \<open>CancelledError\<close>, \<open>False\<close> on any \<open>Exception\<close>. Awaiting links
  that are a memoized attribute stores the list they yield in \<open>_links\<close>.
\<close>

definition working_body :: "stream \<Rightarrow> (error + bool) \<times> stream" where
  "working_body self =
     (let self' = self\<lparr>links_awaited := links_awaited self + 1\<rparr> in
      case links self of
        Inr ls \<Rightarrow>
          (Inr (length ls > 0),
           if links_cached self then self'\<lparr>links_slot := Some ls\<rparr> else self')
      | Inl e \<Rightarrow>
          if e = CancelledError then (Inr False, self')
          else if is_Exception e then (Inr False, self')
          else (Inl e, self'))"

definition working :: "stream \<Rightarrow> (error + bool) \<times> stream" where
  "working = cached_property working_slot (\<lambda>v s. s\<lparr>working_slot := Some v\<rparr>) working_body"

text \<open>
  \<open>Stream.working_external_self\<close> (lines 142-147); \<open>and\<close> awaits \<open>working\<close> only
  when \<open>external\<close> is true. The second component is the stream after the call.
\<close>

definition working_external_self :: "stream \<Rightarrow> (error + stream option) \<times> stream" where
  "working_external_self self =
     (case external self of
        Inl e \<Rightarrow> (Inl e, self)
      | Inr ext \<Rightarrow>
          if \<not> ext then (Inr None, self)
          else
            (case working self of
               (Inl e, self') \<Rightarrow> (Inl e, self')
             | (Inr w, self') \<Rightarrow> if w then (Inr (Some self'), self') else (Inr None, self')))"

subsection \<open>Provider dispatch\<close>

text \<open>
  The host of an absolute URL \<open>scheme://[userinfo@]host[:port][/path]\<close>, which the source
  reads as \<^verbatim>\<open>(await req.yarl).host\<close> (the request wrapper and yarl are external
  collaborators): the authority without the user information and the port, in lower case;
  \<open>None\<close> when the URL has no \<open>://\<close> or no host.
\<close>

fun after_scheme :: "string \<Rightarrow> string option" where
  "after_scheme (a # b # c # rest) =
     (if [a, b, c] = ''://'' then Some rest else after_scheme (b # c # rest))"
| "after_scheme _ = None"

text \<open>The part of the authority after the last \<open>@\<close>, the whole when it has none.\<close>

fun after_userinfo :: "string \<Rightarrow> string" where
  "after_userinfo [] = []"
| "after_userinfo (c # cs) =
     (if CHR ''@'' \<in> set (c # cs) then after_userinfo cs else c # cs)"

definition lower_char :: "char \<Rightarrow> char" where
  "lower_char c =
     (case map_of (zip ''ABCDEFGHIJKLMNOPQRSTUVWXYZ'' ''abcdefghijklmnopqrstuvwxyz'') c of
        Some l \<Rightarrow> l
      | None \<Rightarrow> c)"

definition url_host :: "string \<Rightarrow> string option" where
  "url_host url =
     (case after_scheme url of
        None \<Rightarrow> None
      | Some rest \<Rightarrow>
          (let authority = takeWhile (\<lambda>c. c \<notin> set ''/?#'') rest;
               h = map lower_char (takeWhile (\<lambda>c. c \<noteq> CHR '':'') (after_userinfo authority))
           in if h = [] then None else Some h))"

text \<open>\<^verbatim>\<open>s.lstrip(chars)\<close> removes every leading character that occurs in \<open>chars\<close>.\<close>

definition lstrip :: "string \<Rightarrow> string \<Rightarrow> string" where
  "lstrip chars s = dropWhile (\<lambda>c. c \<in> set chars) s"

text \<open>
  A provider class: its class attributes, and what its implementations of the abstract
  properties yield for a request URL.
\<close>

record stream_class =
  cls_PRIORITY :: int
  cls_HOST :: "string option"
  cls_persist :: bool
  cls_external :: "string \<Rightarrow> error + bool"
  cls_links :: "string \<Rightarrow> error + string list"
  cls_links_cached :: bool

text \<open>A fresh instance of a provider class for a request: no attribute resolved yet.\<close>

definition new_stream :: "stream_class \<Rightarrow> string \<Rightarrow> stream" where
  "new_stream cls url =
     \<lparr>dirty_slot = False, PRIORITY = cls_PRIORITY cls, HOST = cls_HOST cls, req = url,
      persist = cls_persist cls, external = cls_external cls url, links = cls_links cls url,
      links_slot = None, poster_slot = None, working_slot = None, links_awaited = 0,
      links_cached = cls_links_cached cls\<rparr>"

text \<open>
  \<open>Stream.can_handle\<close> (lines 90-104): the host of the request, with leading characters
  of \<open>www.\<close> stripped, equals the class's \<open>HOST\<close>. A URL without a host has host
  \<open>None\<close>, on which \<open>.lstrip\<close> raises AttributeError.
\<close>

definition can_handle :: "stream_class \<Rightarrow> string \<Rightarrow> error + bool" where
  "can_handle cls url =
     (case url_host url of
        None \<Rightarrow> Inl (OtherException ''AttributeError'')
      | Some h \<Rightarrow> Inr (Some (lstrip ''www.'' h) = cls_HOST cls))"

text \<open>
  The provider class of streams/vidstreaming.py: \<open>HOST\<close> is \<open>vidstreaming.io\<close>,
  \<open>PRIORITY\<close> and \<open>persist\<close> are inherited from Stream (100, False), \<open>external\<close> is
  true; its links come from the network and are a memoized attribute.
\<close>

definition Vidstreaming :: "(string \<Rightarrow> error + string list) \<Rightarrow> stream_class" where
  "Vidstreaming fetch_links =
     \<lparr>cls_PRIORITY = 100, cls_HOST = Some ''vidstreaming.io'', cls_persist = False,
      cls_external = (\<lambda>url. Inr True), cls_links = fetch_links, cls_links_cached = True\<rparr>"

text \<open>
  Modelled from the spec: \<open>get_stream\<close> and the provider registry (grobber/streams/__init__.py)
  and \<open>anext\<close> (grobber/utils.py) are not among the sources. Section 4.6 of the
  specification: each registered provider declares \<open>canHandle\<close>; the first match wins; no
  match drops the candidate silently. The result is the first candidate of the dispatch for
  one request, or \<open>None\<close>.
\<close>

fun get_stream :: "stream_class list \<Rightarrow> string \<Rightarrow> error + stream option" where
  "get_stream [] url = Inr None"
| "get_stream (cls # registry) url =
     (case can_handle cls url of
        Inl e \<Rightarrow> Inl e
      | Inr accepted \<Rightarrow> if accepted then Inr (Some (new_stream cls url)) else get_stream registry url)"

text \<open>
  \<^verbatim>\<open>asyncio.gather\<close>: the results in the order of the arguments, or the exception of a
  computation that raised.
\<close>

fun gather :: "(error + 'a) list \<Rightarrow> error + 'a list" where
  "gather [] = Inr []"
| "gather (Inl e # rs) = Inl e"
| "gather (Inr v # rs) = (case gather rs of Inl e \<Rightarrow> Inl e | Inr vs \<Rightarrow> Inr (v # vs))"

subsection \<open>Episode (models.py, lines 190-305)\<close>

text \<open>
  \<open>raw_streams\<close> is an abstract asynchronous property: the field holds what awaiting it
  yields. \<open>streams_slot\<close> and \<open>stream_slot\<close> are the attributes \<open>_streams\<close> and
  \<open>_stream\<close>. \<open>_streams\<close> holds the stream objects; \<open>_stream\<close> holds the selected
  object, one of them, given by its position in \<open>_streams\<close>.
\<close>

record episode = expiring +
  raw_streams :: "error + string list"
  streams_slot :: "stream list option"
  stream_slot :: "nat option option"

text \<open>\<open>Episode.dirty\<close>, getter and setter (lines 201-215).\<close>

definition Episode_dirty :: "episode \<Rightarrow> bool" where
  "Episode_dirty self =
     (if dirty_slot self then True
      else (case streams_slot self of
              Some streams \<Rightarrow> list_ex dirty streams
            | None \<Rightarrow> False))"

definition Episode_set_dirty :: "bool \<Rightarrow> episode \<Rightarrow> episode" where
  "Episode_set_dirty v self =
     (let self' = self\<lparr>dirty_slot := v\<rparr> in
      case streams_slot self' of
        Some streams \<Rightarrow> self'\<lparr>streams_slot := Some (map (set_dirty v) streams)\<rparr>
      | None \<Rightarrow> self')"

text \<open>\<open>Episode.streams\<close> (lines 222-231); \<^verbatim>\<open>filter(None, ...)\<close> drops the \<open>None\<close>s.\<close>

definition streams_body :: "stream_class list \<Rightarrow> episode \<Rightarrow> (error + stream list) \<times> episode" where
  "streams_body registry self =
     (case raw_streams self of
        Inl e \<Rightarrow> (Inl e, self)
      | Inr embed_links \<Rightarrow>
          (case gather (map (get_stream registry) embed_links) of
             Inl e \<Rightarrow> (Inl e, self)
           | Inr found \<Rightarrow>
               (Inr (py_sort_reverse PRIORITY (List.map_filter (\<lambda>s. s) found)), self)))"

definition Episode_streams :: "stream_class list \<Rightarrow> episode \<Rightarrow> (error + stream list) \<times> episode" where
  "Episode_streams registry =
     cached_property streams_slot (\<lambda>v s. s\<lparr>streams_slot := Some v\<rparr>) (streams_body registry)"

text \<open>
  The default predicate \<open>bool\<close> of \<open>get_first\<close> and the test \<^verbatim>\<open>if working_stream\<close>
  read the truth value of an optional stream: false for \<open>None\<close>, true for a stream.
\<close>

definition truthy :: "'a option \<Rightarrow> bool" where
  "truthy v = (v \<noteq> None)"

text \<open>
  The computations that have finished when \<open>get_first\<close> returns: the \<open>done\<close> sets of
  the rounds it went through, the whole of each. The computations of the later rounds are
  still pending then: cancelled when a winner was found, left running when \<open>.result()\<close>
  raised.
\<close>

fun finished :: "('t \<Rightarrow> error + 'a) \<Rightarrow> ('a \<Rightarrow> bool) \<Rightarrow> 't list list \<Rightarrow> 't list" where
  "finished result_of predicate [] = []"
| "finished result_of predicate (done_set # coros) =
     (case done_set of
        [] \<Rightarrow> finished result_of predicate coros
      | t # _ \<Rightarrow>
          (case result_of t of
             Inl e \<Rightarrow> done_set
           | Inr result \<Rightarrow>
               if predicate result then done_set
               else done_set @ finished result_of predicate coros))"

text \<open>
  The list \<open>_streams\<close> holds the stream objects, and a validation works on the object
  itself: what it caches is cached in the member of \<open>_streams\<close>. A stream object is
  therefore referred to by its position in \<open>_streams\<close>. \<open>validation_result\<close> is what
  the validation \<open>working_external_self\<close> of the object at a position yields: the object
  itself (its position), \<open>None\<close>, or an exception. \<open>finish_validations\<close> leaves in
  each of the given objects what its validation leaves there.
\<close>

definition validation_result :: "stream list \<Rightarrow> nat \<Rightarrow> error + nat option" where
  "validation_result streams i =
     (case fst (working_external_self (streams ! i)) of
        Inl e \<Rightarrow> Inl e
      | Inr None \<Rightarrow> Inr None
      | Inr (Some _) \<Rightarrow> Inr (Some i))"

definition finish_validations :: "nat list \<Rightarrow> stream list \<Rightarrow> stream list" where
  "finish_validations done_tasks streams =
     foldl (\<lambda>ss i. ss[i := snd (working_external_self (streams ! i))]) streams done_tasks"

text \<open>
  The loop of \<open>Episode.stream\<close> (lines 251-260) over the priority groups, each group the
  positions of its streams. \<open>wait\<close> gives the rounds in which the validations of a group
  finish. The result is the position of the winner, if any; it comes with the stream objects
  as the finished validations leave them, the positions whose validation was started, and
  the positions whose validation was cancelled.
\<close>

fun stream_groups ::
  "(nat list \<Rightarrow> nat list list) \<Rightarrow> (int \<times> nat list) list \<Rightarrow> stream list \<Rightarrow>
   (error + nat option) \<times> stream list \<times> nat list \<times> nat list"
where
  "stream_groups wait [] all_streams = (Inr None, all_streams, [], [])"
| "stream_groups wait ((priority, streams) # groups) all_streams =
     (let rounds = wait streams;
          validated =
            finish_validations (finished (validation_result all_streams) truthy rounds) all_streams
      in case get_first (validation_result all_streams) truthy rounds of
           (Inl e, cancelled) \<Rightarrow> (Inl e, validated, streams, cancelled)
         | (Inr None, cancelled) \<Rightarrow>
             (case stream_groups wait groups validated of
                (r, after, started, cancelled') \<Rightarrow> (r, after, streams @ started, cancelled'))
         | (Inr (Some working_stream), cancelled) \<Rightarrow>
             if truthy working_stream then (Inr working_stream, validated, streams, cancelled)
             else (case stream_groups wait groups validated of
                     (r, after, started, cancelled') \<Rightarrow> (r, after, streams @ started, cancelled')))"

text \<open>
  The body of \<open>Episode.stream\<close> (lines 244-260): the candidates are sorted in place, which
  leaves the sorted list in \<open>_streams\<close>, grouped by \<open>PRIORITY\<close>, and the groups are raced
  in turn; the validations work on the members of \<open>_streams\<close>. \<open>stream_run\<close> returns
  the position of the winner with the episode, the positions validated and the positions
  cancelled; \<open>stream_body\<close> is its result and episode.
\<close>

definition stream_run ::
  "(nat list \<Rightarrow> nat list list) \<Rightarrow> stream_class list \<Rightarrow> episode \<Rightarrow>
   (error + nat option) \<times> episode \<times> nat list \<times> nat list"
where
  "stream_run wait registry self =
     (case Episode_streams registry self of
        (Inl e, self') \<Rightarrow> (Inl e, self', [], [])
      | (Inr all_streams, self') \<Rightarrow>
          (let sorted_streams = py_sort_reverse PRIORITY all_streams in
           case stream_groups wait
                  (groupby (\<lambda>i. PRIORITY (sorted_streams ! i)) [0..<length sorted_streams])
                  sorted_streams of
             (r, validated, started, cancelled) \<Rightarrow>
               (r, self'\<lparr>streams_slot := Some validated\<rparr>, started, cancelled)))"

definition stream_body ::
  "(nat list \<Rightarrow> nat list list) \<Rightarrow> stream_class list \<Rightarrow> episode \<Rightarrow>
   (error + nat option) \<times> episode"
where
  "stream_body wait registry self =
     (case stream_run wait registry self of (r, self', started, cancelled) \<Rightarrow> (r, self'))"

text \<open>
  \<open>Episode.stream\<close> is a memoized attribute: \<open>_stream\<close> holds the winner, the object
  itself, here its position in \<open>_streams\<close>. \<open>Episode_stream\<close> returns the object the
  position refers to, as it is at the time of the read. A position outside \<open>_streams\<close>
  refers to no object; the source has no such state.
\<close>

definition Episode_stream_ref ::
  "(nat list \<Rightarrow> nat list list) \<Rightarrow> stream_class list \<Rightarrow> episode \<Rightarrow>
   (error + nat option) \<times> episode"
where
  "Episode_stream_ref wait registry =
     cached_property stream_slot (\<lambda>v s. s\<lparr>stream_slot := Some v\<rparr>) (stream_body wait registry)"

definition deref :: "episode \<Rightarrow> nat \<Rightarrow> stream option" where
  "deref self i =
     (case streams_slot self of
        Some streams \<Rightarrow> if i < length streams then Some (streams ! i) else None
      | None \<Rightarrow> None)"

definition Episode_stream ::
  "(nat list \<Rightarrow> nat list list) \<Rightarrow> stream_class list \<Rightarrow> episode \<Rightarrow>
   (error + stream option) \<times> episode"
where
  "Episode_stream wait registry self =
     (case Episode_stream_ref wait registry self of
        (Inl e, self') \<Rightarrow> (Inl e, self')
      | (Inr None, self') \<Rightarrow> (Inr None, self')
      | (Inr (Some i), self') \<Rightarrow> (Inr (deref self' i), self'))"

text \<open>
  What a validation that is cancelled while it awaits the links leaves in its stream: the
  run of \<open>working_external_self\<close> in which awaiting the links raises \<open>CancelledError\<close>.
  \<open>finish_cancelled j\<close> is that completion for the object at position \<open>j\<close> of an
  episode's \<open>_streams\<close>.
\<close>

definition cancelled_validation :: "stream \<Rightarrow> stream" where
  "cancelled_validation s =
     (snd (working_external_self (s\<lparr>links := Inl CancelledError\<rparr>)))\<lparr>links := links s\<rparr>"

definition finish_cancelled :: "nat \<Rightarrow> episode \<Rightarrow> episode" where
  "finish_cancelled j self =
     (case streams_slot self of
        None \<Rightarrow> self
      | Some streams \<Rightarrow>
          if j < length streams
          then self\<lparr>streams_slot := Some (streams[j := cancelled_validation (streams ! j)])\<rparr>
          else self)"

text \<open>\<open>Episode.get\<close> (lines 262-267).\<close>

definition Episode_get :: "stream_class list \<Rightarrow> episode \<Rightarrow> int \<Rightarrow> (error + stream) \<times> episode" where
  "Episode_get registry self index =
     (case Episode_streams registry self of
        (Inl e, self') \<Rightarrow> (Inl e, self')
      | (Inr streams, self') \<Rightarrow>
          if \<not> (0 \<le> index \<and> index < int (length streams)) then (Inl StreamNotFound, self')
          else (Inr (streams ! nat index), self'))"

text \<open>
  \<open>Episode.serialise_special\<close> (lines 274-279). \<^verbatim>\<open>getattr(stream, "_links", True)\<close> is
  \<open>True\<close> when the attribute is not set, and the stored list otherwise, which is true when it
  is not empty; likewise for \<open>_poster\<close>, whose stored value is true when it is a non-empty
  string. \<open>state_of\<close> stands for the property \<open>state\<close> of the absent base class.
\<close>

datatype attr_value = StreamsValue "stream list" | StreamValue "stream option" | OtherValue

datatype 'b special = States "'b list" | State 'b | NoSpecial

definition getattr_links_truth :: "stream \<Rightarrow> bool" where
  "getattr_links_truth s = (case links_slot s of None \<Rightarrow> True | Some ls \<Rightarrow> ls \<noteq> [])"

definition getattr_poster_truth :: "stream \<Rightarrow> bool" where
  "getattr_poster_truth s =
     (case poster_slot s of None \<Rightarrow> True | Some None \<Rightarrow> False | Some (Some p) \<Rightarrow> p \<noteq> [])"

definition serialise_special ::
  "(stream \<Rightarrow> 'b) \<Rightarrow> string \<Rightarrow> attr_value \<Rightarrow> error + 'b special"
where
  "serialise_special state_of key v =
     (if key = ''streams'' then
        (case v of
           StreamsValue streams \<Rightarrow>
             Inr (States (map state_of
               (filter (\<lambda>s. persist s \<or> getattr_links_truth s \<or> getattr_poster_truth s) streams)))
         | _ \<Rightarrow> Inl TypeError)
      else if key = ''stream'' then
        (case v of
           StreamValue (Some s) \<Rightarrow> Inr (State (state_of s))
         | _ \<Rightarrow> Inl (OtherException ''AttributeError''))
      else Inr NoSpecial)"

subsection \<open>Anime (models.py, lines 308-453)\<close>

text \<open>
  The dictionary \<open>_episodes\<close> is a list of pairs of an index and an episode, in insertion
  order, without repeated keys. \<open>get_episodes\<close> and \<open>get_episode\<close> are the abstract
  methods: the fields hold what awaiting them yields. \<open>episodes_slot\<close> and
  \<open>episode_count_slot\<close> are the attributes \<open>_episodes\<close> and \<open>_episode_count\<close>;
  \<open>constructed\<close> lists the indices for which \<open>get_episode\<close> has been called, latest
  last.
\<close>

record anime = expiring +
  get_episodes :: "error + episode list"
  get_episode :: "int \<Rightarrow> error + episode"
  episodes_slot :: "(int \<times> episode) list option"
  episode_count_slot :: "int option"
  constructed :: "int list"

text \<open>\<^verbatim>\<open>d[k] = v\<close>: replaces the value of a key that is present, appends a new key.\<close>

fun dict_set :: "'k \<Rightarrow> 'v \<Rightarrow> ('k \<times> 'v) list \<Rightarrow> ('k \<times> 'v) list" where
  "dict_set k v [] = [(k, v)]"
| "dict_set k v ((k', v') # d) = (if k' = k then (k, v) # d else (k', v') # dict_set k v d)"

text \<open>\<^verbatim>\<open>dict(enumerate(eps))\<close>.\<close>

definition dict_enumerate :: "'v list \<Rightarrow> (int \<times> 'v) list" where
  "dict_enumerate eps = zip (map int [0..<length eps]) eps"

text \<open>\<open>Anime.dirty\<close>, getter and setter (lines 341-355).\<close>

definition Anime_dirty :: "anime \<Rightarrow> bool" where
  "Anime_dirty self =
     (if dirty_slot self then True
      else (case episodes_slot self of
              Some eps \<Rightarrow> list_ex Episode_dirty (map snd eps)
            | None \<Rightarrow> False))"

definition Anime_set_dirty :: "bool \<Rightarrow> anime \<Rightarrow> anime" where
  "Anime_set_dirty v self =
     (let self' = self\<lparr>dirty_slot := v\<rparr> in
      case episodes_slot self' of
        Some eps \<Rightarrow> self'\<lparr>episodes_slot := Some (map (\<lambda>(i, ep). (i, Episode_set_dirty v ep)) eps)\<rparr>
      | None \<Rightarrow> self')"

text \<open>\<open>Anime.episode_count\<close> (lines 390-392), a memoized attribute.\<close>

definition episode_count_body :: "anime \<Rightarrow> (error + int) \<times> anime" where
  "episode_count_body self =
     (case get_episodes self of
        Inl e \<Rightarrow> (Inl e, self)
      | Inr eps \<Rightarrow> (Inr (int (length eps)), self))"

definition episode_count :: "anime \<Rightarrow> (error + int) \<times> anime" where
  "episode_count =
     cached_property episode_count_slot (\<lambda>v s. s\<lparr>episode_count_slot := Some v\<rparr>) episode_count_body"

text \<open>
  The loop of \<open>Anime.episodes\<close> (lines 400-402) over \<open>range(episode_count)\<close>: an index
  that is not in the dictionary gets the episode that \<open>get_episode\<close> constructs. An
  exception leaves the entries made so far.
\<close>

fun fill_missing :: "int list \<Rightarrow> anime \<Rightarrow> (int \<times> episode) list \<Rightarrow> error option \<times> anime \<times> (int \<times> episode) list" where
  "fill_missing [] self d = (None, self, d)"
| "fill_missing (i # indices) self d =
     (if map_of d i = None then
        (case get_episode self i of
           Inl e \<Rightarrow> (Some e, self\<lparr>constructed := constructed self @ [i]\<rparr>, d)
         | Inr ep \<Rightarrow>
             fill_missing indices (self\<lparr>constructed := constructed self @ [i]\<rparr>) (dict_set i ep d))
      else fill_missing indices self d)"

text \<open>\<open>Anime.episodes\<close> (lines 394-407). \<open>[0..n - 1]\<close> is \<open>range(n)\<close>.\<close>

definition episodes :: "anime \<Rightarrow> (error + (int \<times> episode) list) \<times> anime" where
  "episodes self =
     (case episodes_slot self of
        Some d \<Rightarrow>
          (case episode_count self of
             (Inl e, self1) \<Rightarrow> (Inl e, self1)
           | (Inr n, self1) \<Rightarrow>
               if int (length d) \<noteq> n then
                 (case fill_missing [0..n - 1] self1 d of
                    (Some e, self2, d') \<Rightarrow> (Inl e, self2\<lparr>episodes_slot := Some d'\<rparr>)
                  | (None, self2, d') \<Rightarrow> (Inr d', self2\<lparr>episodes_slot := Some d'\<rparr>))
               else (Inr d, self1))
      | None \<Rightarrow>
          (case get_episodes self of
             Inl e \<Rightarrow> (Inl e, self)
           | Inr eps \<Rightarrow> (Inr (dict_enumerate eps), self\<lparr>episodes_slot := Some (dict_enumerate eps)\<rparr>)))"

text \<open>
  \<open>Anime.get\<close> (lines 409-417). The \<open>try\<close> covers the evaluation of \<open>episodes\<close> as well
  as the lookup, so a \<open>KeyError\<close> from either becomes \<open>EpisodeNotFound\<close>, whose second
  argument awaits \<open>episode_count\<close>.
\<close>

definition raise_EpisodeNotFound :: "int \<Rightarrow> anime \<Rightarrow> (error + episode) \<times> anime" where
  "raise_EpisodeNotFound index self =
     (case episode_count self of
        (Inl e, self') \<Rightarrow> (Inl e, self')
      | (Inr n, self') \<Rightarrow> (Inl (EpisodeNotFound index n), self'))"

definition Anime_get :: "anime \<Rightarrow> int \<Rightarrow> (error + episode) \<times> anime" where
  "Anime_get self index =
     (case (case episodes_slot self of Some d \<Rightarrow> map_of d index | None \<Rightarrow> None) of
        Some ep \<Rightarrow> (Inr ep, self)
      | None \<Rightarrow>
          (case episodes self of
             (Inl e, self1) \<Rightarrow>
               if e = KeyError then raise_EpisodeNotFound index self1 else (Inl e, self1)
           | (Inr d, self1) \<Rightarrow>
               (case map_of d index of
                  Some ep \<Rightarrow> (Inr ep, self1)
                | None \<Rightarrow> raise_EpisodeNotFound index self1)))"

section \<open>Search requests (query.py)\<close>

text \<open>
  \<^verbatim>\<open>request.args\<close>, the parameters of the current request: \<open>args key\<close> is what
  \<^verbatim>\<open>request.args.get(key)\<close> returns, \<open>None\<close> when the request has no such parameter.
\<close>

type_synonym request_args = "string \<Rightarrow> string option"

text \<open>
  A search result (models.py, lines 59-61). The certainty is a float; the model needs
  only that certainties are linearly ordered.
\<close>

record ('a, 'k) search_result =
  anime :: 'a
  certainty :: 'k

text \<open>\<open>SearchFilter\<close> (query.py, lines 21-23).\<close>

record 'l search_filter =
  language :: 'l
  dubbed :: bool

text \<open>
  What query.py calls but does not define. \<open>py_int\<close> is Python's \<open>int\<close> on a string,
  \<open>None\<close> when it raises \<open>ValueError\<close>. \<open>get_lang\<close> and \<open>fuzzy_bool\<close> are the
  converters of the parameters \<open>language\<close> and \<open>dubbed\<close>; they return a value or raise.
  \<open>ENGLISH\<close> is \<^verbatim>\<open>Language.ENGLISH\<close>. \<open>search\<close> is \<^verbatim>\<open>sources.search_anime\<close>: the
  items that the asynchronous iterator it returns yields, in order, where an item \<open>Inl e\<close>
  is an exception raised when that item is requested. \<open>preload_attrs\<close> is what preloading
  the attributes of an anime yields: the anime with the attributes loaded, or an exception.
\<close>

record ('l, 'a, 'k) collaborators =
  py_int :: "string \<Rightarrow> int option"
  get_lang :: "string \<Rightarrow> error + 'l option"
  fuzzy_bool :: "string \<Rightarrow> error + bool"
  ENGLISH :: 'l
  search :: "string \<Rightarrow> 'l \<Rightarrow> bool \<Rightarrow> (error + ('a, 'k) search_result) list"
  preload_attrs :: "'a \<Rightarrow> error + 'a"

text \<open>
  The two query classes (lines 66-107) with their attributes: \<open>UID uid\<close> and
  \<open>Query anime language dubbed\<close>, where \<open>language\<close> and \<open>dubbed\<close> are \<open>None\<close>
  when the request does not give them.
\<close>

datatype 'l anime_query = UID string | Query string "'l option" "bool option"

text \<open>
  A converter call in \<open>_Generic.__init__\<close> (lines 43-47): \<open>ValueError\<close> and
  \<open>TypeError\<close> are raised again as \<open>ValueError\<close>; any other exception passes.
\<close>

definition convert :: "(string \<Rightarrow> error + 'v) \<Rightarrow> string \<Rightarrow> error + 'v" where
  "convert converter v =
     (case converter v of
        Inl e \<Rightarrow> if e = ValueError \<or> e = TypeError then Inl ValueError else Inl e
      | Inr converted \<Rightarrow> Inr converted)"

text \<open>
  \<open>_Generic.__init__\<close> (lines 31-49) for each of the two classes. \<open>UID\<close> has the one
  attribute \<open>uid\<close>, with no default, converted by the identity on strings. \<open>Query\<close> has
  \<open>anime\<close>, with no default, converted by \<open>str\<close>, then \<open>language\<close> and \<open>dubbed\<close>,
  whose default is \<open>None\<close>. A missing attribute without default raises \<open>KeyError\<close>.
\<close>

definition UID_init :: "request_args \<Rightarrow> error + 'l anime_query" where
  "UID_init args =
     (case args ''uid'' of
        None \<Rightarrow> Inl KeyError
      | Some v \<Rightarrow> Inr (UID v))"

definition Query_init :: "('l, 'a, 'k) collaborators \<Rightarrow> request_args \<Rightarrow> error + 'l anime_query" where
  "Query_init env args =
     (case args ''anime'' of
        None \<Rightarrow> Inl KeyError
      | Some title \<Rightarrow>
          (case (case args ''language'' of
                   None \<Rightarrow> Inr None
                 | Some v \<Rightarrow> convert (get_lang env) v) of
             Inl e \<Rightarrow> Inl e
           | Inr lang \<Rightarrow>
               (case (case args ''dubbed'' of
                        None \<Rightarrow> Inr None
                      | Some v \<Rightarrow> map_sum id Some (convert (fuzzy_bool env) v)) of
                  Inl e \<Rightarrow> Inl e
                | Inr dub \<Rightarrow> Inr (Query title lang dub))))"

text \<open>\<open>_Generic.try_build\<close> (lines 51-56): \<open>ValueError\<close> and \<open>KeyError\<close> give \<open>None\<close>.\<close>

definition try_build :: "error + 'q \<Rightarrow> error + 'q option" where
  "try_build init =
     (case init of
        Inl e \<Rightarrow> if e = ValueError \<or> e = KeyError then Inr None else Inl e
      | Inr query \<Rightarrow> Inr (Some query))"

text \<open>\<open>AnimeQuery.build\<close> (lines 109-117): the first class that can be built, UID first.\<close>

definition build :: "('l, 'a, 'k) collaborators \<Rightarrow> request_args \<Rightarrow> error + 'l anime_query" where
  "build env args =
     (case try_build (UID_init args) of
        Inl e \<Rightarrow> Inl e
      | Inr (Some query) \<Rightarrow> Inr query
      | Inr None \<Rightarrow>
          (case try_build (Query_init env args) of
             Inl e \<Rightarrow> Inl e
           | Inr (Some query) \<Rightarrow> Inr query
           | Inr None \<Rightarrow> Inl InvalidRequest))"

text \<open>
  \<open>search_params\<close> (lines 69-70 and 91-92). A language that is \<open>None\<close> gives
  \<open>ENGLISH\<close>; \<open>bool\<close> of a \<open>dubbed\<close> that is \<open>None\<close> is \<open>False\<close>.
\<close>

definition search_params ::
  "('l, 'a, 'k) collaborators \<Rightarrow> 'l anime_query \<Rightarrow> error + 'l search_filter"
where
  "search_params env query =
     (case query of
        UID uid \<Rightarrow> Inl InvalidRequest
      | Query title lang dub \<Rightarrow>
          Inr \<lparr>language = (case lang of Some l \<Rightarrow> l | None \<Rightarrow> ENGLISH env),
               dubbed = (case dub of Some d \<Rightarrow> d | None \<Rightarrow> False)\<rparr>)"

text \<open>
  \<open>_get_int_param\<close> (lines 120-131). \<^verbatim>\<open>request.args.get(name, type=int)\<close> is \<open>None\<close>
  when the parameter is missing and when \<open>int\<close> does not accept its value. The default is
  \<open>None\<close> here when the caller gives none.
\<close>

definition get_int_param ::
  "('l, 'a, 'k) collaborators \<Rightarrow> request_args \<Rightarrow> string \<Rightarrow> int option \<Rightarrow> error + int"
where
  "get_int_param env args name default_value =
     (case (case args name of None \<Rightarrow> None | Some s \<Rightarrow> py_int env s) of
        None \<Rightarrow> (case default_value of None \<Rightarrow> Inl InvalidRequest | Some d \<Rightarrow> Inr d)
      | Some v \<Rightarrow> Inr v)"

text \<open>
  The loop that fills \<open>results_pool\<close> (lines 152-157): each item is requested from the
  iterator first, then the length of the pool is tested, then the item is appended.
\<close>

fun results_pool :: "(error + 'r) list \<Rightarrow> int \<Rightarrow> 'r list \<Rightarrow> error + 'r list" where
  "results_pool [] consider_results pool = Inr pool"
| "results_pool (Inl e # result_iter) consider_results pool = Inl e"
| "results_pool (Inr result # result_iter) consider_results pool =
     (if int (length pool) \<ge> consider_results then Inr pool
      else results_pool result_iter consider_results (pool @ [result]))"

text \<open>
  \<open>search_anime\<close> (lines 134-162). The results returned hold their anime as preloading
  leaves them.
\<close>

definition search_anime ::
  "('l, 'a, 'k::linorder) collaborators \<Rightarrow> request_args \<Rightarrow> error + ('a, 'k) search_result list"
where
  "search_anime env args =
     (case build env args of
        Inl e \<Rightarrow> Inl e
      | Inr query \<Rightarrow>
     (case search_params env query of
        Inl e \<Rightarrow> Inl e
      | Inr filters \<Rightarrow>
     (case args ''anime'' of
        None \<Rightarrow> Inl InvalidRequest
      | Some title \<Rightarrow>
          if title = [] then Inl InvalidRequest
          else
     (case get_int_param env args ''results'' (Some 1) of
        Inl e \<Rightarrow> Inl e
      | Inr num_results \<Rightarrow>
          if \<not> (0 < num_results \<and> num_results \<le> 20) then Inl InvalidRequest
          else
            (let consider_results = max num_results 3 in
             case results_pool (search env title (language filters) (dubbed filters))
                    consider_results [] of
               Inl e \<Rightarrow> Inl e
             | Inr pool \<Rightarrow>
                 (let results = take (nat num_results) (py_sort_reverse certainty pool) in
                  case gather (map (\<lambda>result. preload_attrs env (anime result)) results) of
                    Inl e \<Rightarrow> Inl e
                  | Inr loaded \<Rightarrow>
                      Inr (take (nat num_results)
                             (map (\<lambda>(result, a). result\<lparr>anime := a\<rparr>) (zip results loaded)))))))))"

section \<open>Properties of the race selector\<close>

lemma get_first_Some_sound:
  "fst (get_first result_of predicate rounds) = Inr (Some v) \<Longrightarrow>
   \<exists>t \<in> set (concat rounds). result_of t = Inr v \<and> predicate v"
proof (induction rounds)
  case Nil
  then show ?case by simp
next
  case (Cons done_set coros)
  show ?case
  proof (cases done_set)
    case Nil
    with Cons show ?thesis by simp
  next
    case (Cons t rest)
    note ds = this
    show ?thesis
    proof (cases "result_of t")
      case (Inl e)
      with ds Cons.prems show ?thesis by simp
    next
      case (Inr r)
      show ?thesis
      proof (cases "predicate r")
        case True
        with ds Inr Cons.prems show ?thesis by auto
      next
        case False
        with ds Inr Cons.prems have "fst (get_first result_of predicate coros) = Inr (Some v)"
          by simp
        from Cons.IH [OF this] show ?thesis by auto
      qed
    qed
  qed
qed

lemma get_first_None_if_all_fail:
  "\<forall>t \<in> set (concat rounds). \<exists>v. result_of t = Inr v \<and> \<not> predicate v \<Longrightarrow>
   get_first result_of predicate rounds = (Inr None, [])"
proof (induction rounds)
  case Nil
  then show ?case by simp
next
  case (Cons done_set coros)
  then have IH: "get_first result_of predicate coros = (Inr None, [])"
    by simp
  show ?case
  proof (cases done_set)
    case Nil
    with IH show ?thesis by simp
  next
    case (Cons t rest)
    with Cons.prems obtain v where "result_of t = Inr v" "\<not> predicate v"
      by auto
    with Cons IH show ?thesis by simp
  qed
qed

text \<open>
  When no two computations finish in the same round and none raises, the race returns
  nothing exactly when no result satisfies the predicate.
\<close>

lemma get_first_None_iff_singleton_rounds:
  assumes "\<forall>r \<in> set rounds. length r = 1"
    and "\<forall>t \<in> set (concat rounds). \<exists>v. result_of t = Inr v"
  shows "fst (get_first result_of predicate rounds) = Inr None \<longleftrightarrow>
         (\<forall>t \<in> set (concat rounds). \<forall>v. result_of t = Inr v \<longrightarrow> \<not> predicate v)"
  using assms
proof (induction rounds)
  case Nil
  then show ?case by simp
next
  case (Cons done_set coros)
  from Cons.prems(1) obtain t where ds: "done_set = [t]"
    by (cases done_set) auto
  from Cons.prems(2) ds obtain v where v: "result_of t = Inr v"
    by auto
  have IH: "fst (get_first result_of predicate coros) = Inr None \<longleftrightarrow>
         (\<forall>t \<in> set (concat coros). \<forall>v. result_of t = Inr v \<longrightarrow> \<not> predicate v)"
    using Cons by simp
  show ?case
  proof (cases "predicate v")
    case True
    with ds v show ?thesis by auto
  next
    case False
    with ds v IH show ?thesis by auto
  qed
qed

text \<open>
  C1. The claim says that \<open>get_first\<close> returns nothing if and only if no completed result
  satisfies the predicate. The code reads one member of each \<open>done\<close> set only: with two
  computations that finish in the same round, the first yielding 0 and the second 1, and the
  predicate "is positive", the second result satisfies the predicate and \<open>get_first\<close>
  returns nothing (and cancels nothing).
\<close>

theorem get_first_drops_simultaneous_result:
  "get_first (\<lambda>t. Inr t) (\<lambda>v. (0::int) < v) [[0, 1]] = (Inr None, [])
   \<and> (\<lambda>v. (0::int) < v) 1"
  by simp

section \<open>Stream.working\<close>

lemma working_unset:
  "working_slot self = None \<Longrightarrow>
   working self =
     (case working_body self of
        (Inl e, self') \<Rightarrow> (Inl e, self')
      | (Inr v, self') \<Rightarrow> (Inr v, self'\<lparr>working_slot := Some v\<rparr>))"
  by (simp add: working_def cached_property_def)

lemma working_cached: "working_slot self = Some b \<Longrightarrow> working self = (Inr b, self)"
  by (simp add: working_def cached_property_def)

text \<open>A \<open>BaseException\<close> that is not an \<open>Exception\<close> passes through and is not cached.\<close>

lemma working_lets_base_exception_through:
  "working_slot self = None \<Longrightarrow> links self = Inl (NonException n) \<Longrightarrow>
   fst (working self) = Inl (NonException n) \<and> working_slot (snd (working self)) = None"
  by (simp add: working_unset working_body_def Let_def)

text \<open>
  C4. On a stream whose \<open>working\<close> has not been resolved yet: when the awaited links are
  a list, \<open>working\<close> returns whether the list is non-empty; when awaiting the links raises
  an \<open>Exception\<close> or the computation is cancelled (\<open>CancelledError\<close>), \<open>working\<close>
  returns \<open>False\<close> instead of raising, and stores it in its slot. On any later state of
  the instance in which the slot holds a value, whatever awaiting the links would yield by
  then, \<open>working\<close> returns the stored value and leaves the instance as it is: the links
  are not awaited again.
\<close>

theorem working_nonempty_links_and_cached_failure:
  assumes "working_slot self = None"
  shows "(\<forall>ls. links self = Inr ls \<longrightarrow>
            fst (working self) = Inr (ls \<noteq> []) \<and>
            working_slot (snd (working self)) = Some (ls \<noteq> []))
       \<and> (\<forall>e. links self = Inl e \<and> (e = CancelledError \<or> is_Exception e) \<longrightarrow>
            fst (working self) = Inr False \<and>
            working_slot (snd (working self)) = Some False \<and>
            links_awaited (snd (working self)) = links_awaited self + 1)
       \<and> (\<forall>later b. working_slot later = Some b \<longrightarrow>
            working later = (Inr b, later) \<and>
            links_awaited (snd (working later)) = links_awaited later)"
proof (intro conjI allI impI)
  fix ls assume "links self = Inr ls"
  with assms show "fst (working self) = Inr (ls \<noteq> [])"
    by (simp add: working_unset working_body_def Let_def)
  from assms \<open>links self = Inr ls\<close> show "working_slot (snd (working self)) = Some (ls \<noteq> [])"
    by (simp add: working_unset working_body_def Let_def)
next
  fix e assume e: "links self = Inl e \<and> (e = CancelledError \<or> is_Exception e)"
  with assms show "fst (working self) = Inr False"
    by (auto simp: working_unset working_body_def Let_def)
  from assms e show "working_slot (snd (working self)) = Some False"
    by (auto simp: working_unset working_body_def Let_def)
  from assms e show "links_awaited (snd (working self)) = links_awaited self + 1"
    by (auto simp: working_unset working_body_def Let_def)
next
  fix later :: stream and b assume "working_slot later = Some b"
  then show "working later = (Inr b, later)"
    by (rule working_cached)
  then show "links_awaited (snd (working later)) = links_awaited later"
    by simp
qed

text \<open>
  A stream whose links raise an exception: the first read of \<open>working\<close> yields \<open>False\<close>;
  after the links have recovered, the second read still yields \<open>False\<close> and has awaited
  the links once in all.
\<close>

theorem working_nonempty_links_and_cached_failure_witness:
  "(let s0 = \<lparr>dirty_slot = False, PRIORITY = 100, HOST = Some ''vidstreaming.io'',
              req = ''http://vidstreaming.io/e1'', persist = False, external = Inr True,
              links = Inl (OtherException ''timeout''), links_slot = None,
              poster_slot = None, working_slot = None, links_awaited = 0, links_cached = False\<rparr>;
        s1 = snd (working s0);
        s2 = s1\<lparr>links := Inr [''http://cdn/v.mp4'']\<rparr>
    in fst (working s0) = Inr False \<and> working_slot s1 = Some False
       \<and> working s2 = (Inr False, s2) \<and> links_awaited (snd (working s2)) = 1)"
proof -
  define s0 where "s0 = \<lparr>dirty_slot = False, PRIORITY = 100, HOST = Some ''vidstreaming.io'',
              req = ''http://vidstreaming.io/e1'', persist = False, external = Inr True,
              links = Inl (OtherException ''timeout''), links_slot = None,
              poster_slot = None, working_slot = None, links_awaited = 0, links_cached = False\<rparr>"
  have unset: "working_slot s0 = None"
    by (simp add: s0_def)
  have l: "links s0 = Inl (OtherException ''timeout'')"
    by (simp add: s0_def)
  note th = working_nonempty_links_and_cached_failure [OF unset]
  from th l have first: "fst (working s0) = Inr False"
    "working_slot (snd (working s0)) = Some False"
    "links_awaited (snd (working s0)) = links_awaited s0 + 1"
    by simp_all
  define s2 where "s2 = (snd (working s0))\<lparr>links := Inr [''http://cdn/v.mp4'']\<rparr>"
  have c: "working_slot s2 = Some False"
    by (simp add: s2_def first)
  from th c have second: "working s2 = (Inr False, s2)"
    by blast
  have "links_awaited s2 = 1"
    by (simp add: s2_def first) (simp add: s0_def)
  with first second show ?thesis
    unfolding Let_def s0_def [symmetric] s2_def [symmetric] by simp
qed

section \<open>Episode.stream\<close>

text \<open>
  C2. The claim says that a stream of a lower priority group is returned only if no stream
  of a higher group passed validation. Take an episode whose resolved candidates have
  priorities 10, 10 and 5: the first has no links, the second and the third are external and
  have links. When the two validations of priority 10 finish in the same round of the
  wait, the failing one iterated first, \<open>get_first\<close> reads that one result, yields nothing
  for the group, and \<open>Episode.stream\<close> returns the candidate of priority 5, although the
  second candidate of priority 10 passes validation.
\<close>

theorem stream_skips_passing_higher_priority:
  "(let a = \<lparr>dirty_slot = False, PRIORITY = 10, HOST = None, req = ''http://one/a'',
              persist = False, external = Inr True, links = Inr [],
              links_slot = None, poster_slot = None, working_slot = None, links_awaited = 0, links_cached = False\<rparr>;
        b = \<lparr>dirty_slot = False, PRIORITY = 10, HOST = None, req = ''http://two/b'',
              persist = False, external = Inr True, links = Inr [''http://two/b.mp4''],
              links_slot = None, poster_slot = None, working_slot = None, links_awaited = 0, links_cached = False\<rparr>;
        c = \<lparr>dirty_slot = False, PRIORITY = 5, HOST = None, req = ''http://three/c'',
              persist = False, external = Inr True, links = Inr [''http://three/c.mp4''],
              links_slot = None, poster_slot = None, working_slot = None, links_awaited = 0, links_cached = False\<rparr>;
        e = \<lparr>dirty_slot = False, raw_streams = Inr [], streams_slot = Some [a, b, c],
              stream_slot = None\<rparr>
    in fst (working_external_self b) = Inr (Some (b\<lparr>working_slot := Some True, links_awaited := 1\<rparr>))
       \<and> fst (Episode_stream (\<lambda>group. [group]) [] e)
           = Inr (Some (c\<lparr>working_slot := Some True, links_awaited := 1\<rparr>)))"
  by (simp add: Episode_stream_def Episode_stream_ref_def stream_body_def stream_run_def
      Episode_streams_def cached_property_def py_sort_reverse_def validation_result_def
      finish_validations_def deref_def working_external_self_def working_def working_body_def
      truthy_def)

section \<open>Cancellation\<close>

lemma get_first_winner_round:
  "get_first result_of predicate rounds = (Inr (Some v), cancelled) \<Longrightarrow>
   \<exists>n t others. n < length rounds \<and> rounds ! n = t # others \<and> result_of t = Inr v \<and>
      predicate v \<and> cancelled = concat (drop (Suc n) rounds)"
proof (induction rounds)
  case Nil
  then show ?case by simp
next
  case (Cons done_set coros)
  have step: "\<exists>n t others. n < length (done_set # coros) \<and> (done_set # coros) ! n = t # others \<and>
      result_of t = Inr v \<and> predicate v \<and> cancelled = concat (drop (Suc n) (done_set # coros))"
    if "get_first result_of predicate coros = (Inr (Some v), cancelled)"
  proof -
    from Cons.IH [OF that] obtain n t others where
      "n < length coros" "coros ! n = t # others" "result_of t = Inr v" "predicate v"
      "cancelled = concat (drop (Suc n) coros)"
      by blast
    then have "Suc n < length (done_set # coros) \<and> (done_set # coros) ! Suc n = t # others \<and>
      result_of t = Inr v \<and> predicate v \<and> cancelled = concat (drop (Suc (Suc n)) (done_set # coros))"
      by simp
    then show ?thesis by blast
  qed
  show ?case
  proof (cases done_set)
    case Nil
    with Cons.prems step show ?thesis by simp
  next
    case ds: (Cons t others)
    show ?thesis
    proof (cases "result_of t")
      case (Inl e)
      with ds Cons.prems show ?thesis by simp
    next
      case (Inr r)
      show ?thesis
      proof (cases "predicate r")
        case True
        with ds Inr Cons.prems have "r = v" "cancelled = concat coros"
          by simp_all
        with ds Inr True have "0 < length (done_set # coros) \<and> (done_set # coros) ! 0 = t # others \<and>
          result_of t = Inr v \<and> predicate v \<and> cancelled = concat (drop (Suc 0) (done_set # coros))"
          by simp
        then show ?thesis by blast
      next
        case False
        with ds Inr Cons.prems step show ?thesis by simp
      qed
    qed
  qed
qed

lemma concat_groupby: "concat (map snd (groupby key xs)) = xs"
  by (induction key xs rule: groupby.induct) simp_all

lemma get_first_None_cancelled:
  "get_first result_of predicate rounds = (Inr None, cancelled) \<Longrightarrow> cancelled = []"
  by (induction rounds) (auto split: list.splits sum.splits if_splits)

lemma get_first_finished_split:
  "get_first result_of predicate rounds = (Inr (Some v), cancelled) \<Longrightarrow>
   concat rounds = finished result_of predicate rounds @ cancelled \<and> predicate v \<and>
   (\<exists>t. result_of t = Inr v \<and> t \<in> set (finished result_of predicate rounds))"
  by (induction rounds) (auto split: list.splits sum.splits if_splits)

lemma finished_subset: "set (finished result_of predicate rounds) \<subseteq> set (concat rounds)"
  by (induction rounds) (auto split: list.splits sum.splits if_splits)

lemma length_finish_validations [simp]:
  "length (finish_validations done_tasks streams) = length streams"
proof -
  have "length (foldl (\<lambda>ss i. ss[i := f i]) start done_tasks) = length start" for f :: "nat \<Rightarrow> stream" and start
    by (induction done_tasks arbitrary: start) simp_all
  then show ?thesis by (simp add: finish_validations_def)
qed

lemma nth_finish_validations:
  assumes "i < length streams"
  shows "finish_validations done_tasks streams ! i =
     (if i \<in> set done_tasks then snd (working_external_self (streams ! i)) else streams ! i)"
proof -
  have gen: "i < length start \<Longrightarrow> foldl (\<lambda>ss i. ss[i := f i]) start done_tasks ! i =
      (if i \<in> set done_tasks then f i else start ! i)" for f :: "nat \<Rightarrow> stream" and start
    by (induction done_tasks arbitrary: start) (auto simp: nth_list_update)
  from gen [where start = streams and f = "\<lambda>i. snd (working_external_self (streams ! i))", OF assms]
  show ?thesis by (simp add: finish_validations_def)
qed

lemma validation_result_Some:
  "validation_result streams i = Inr (Some w) \<Longrightarrow>
   w = i \<and> working_slot (snd (working_external_self (streams ! i))) = Some True"
  by (auto simp: validation_result_def working_external_self_def working_def cached_property_def
      split: sum.splits option.splits if_splits prod.splits)

lemma stream_groups_winner:
  assumes wf: "\<forall>g. distinct g \<longrightarrow> distinct (concat (wait g)) \<and> set (concat (wait g)) \<subseteq> set g"
  shows "distinct (concat (map snd groups)) \<Longrightarrow>
     \<forall>i \<in> set (concat (map snd groups)). i < length all_streams \<Longrightarrow>
     stream_groups wait groups all_streams = (Inr (Some w), after, started, cancelled) \<Longrightarrow>
     length after = length all_streams \<and> w < length after \<and>
     working_slot (after ! w) = Some True \<and> w \<notin> set cancelled \<and>
     set cancelled \<subseteq> set (concat (map snd groups))"
proof (induction groups arbitrary: all_streams after started cancelled)
  case Nil
  then show ?case by simp
next
  case (Cons pg groups)
  obtain priority streams where pg: "pg = (priority, streams)"
    by (cases pg)
  define rounds where "rounds = wait streams"
  define validated where "validated =
    finish_validations (finished (validation_result all_streams) truthy rounds) all_streams"
  obtain r c where gf: "get_first (validation_result all_streams) truthy rounds = (r, c)"
    by (cases "get_first (validation_result all_streams) truthy rounds")
  from Cons.prems(1) pg have d: "distinct streams" "distinct (concat (map snd groups))"
    by simp_all
  from wf d(1) have dr: "distinct (concat rounds)" and sub: "set (concat rounds) \<subseteq> set streams"
    unfolding rounds_def by blast+
  from Cons.prems(2) pg have here: "\<forall>i \<in> set streams. i < length all_streams"
    by simp
  have len: "length validated = length all_streams"
    by (simp add: validated_def)
  have rng: "\<forall>i \<in> set (concat (map snd groups)). i < length validated"
    using Cons.prems(2) pg len by simp
  have unfold: "stream_groups wait (pg # groups) all_streams =
      (case (r, c) of
         (Inl e, cancelled) \<Rightarrow> (Inl e, validated, streams, cancelled)
       | (Inr None, cancelled) \<Rightarrow>
           (case stream_groups wait groups validated of
              (r, after, started, cancelled') \<Rightarrow> (r, after, streams @ started, cancelled'))
       | (Inr (Some working_stream), cancelled) \<Rightarrow>
           if truthy working_stream then (Inr working_stream, validated, streams, cancelled)
           else (case stream_groups wait groups validated of
              (r, after, started, cancelled') \<Rightarrow> (r, after, streams @ started, cancelled')))"
    unfolding validated_def rounds_def using gf [unfolded rounds_def] by (simp add: pg Let_def)
  have later: ?case
    if "stream_groups wait groups validated = (Inr (Some w), after, started', cancelled)"
    for started'
  proof -
    from Cons.IH [OF d(2) rng that] len pg show ?thesis
      by auto
  qed
  show ?case
  proof (cases r)
    case (Inl e)
    with Cons.prems(3) unfold show ?thesis
      by simp
  next
    case (Inr v)
    show ?thesis
    proof (cases v)
      case None
      obtain r' after' started' cancelled' where
        rec: "stream_groups wait groups validated = (r', after', started', cancelled')"
        by (cases "stream_groups wait groups validated")
      with Cons.prems(3) unfold Inr None have
        "stream_groups wait groups validated = (Inr (Some w), after, started', cancelled)"
        by simp
      then show ?thesis
        by (rule later)
    next
      case (Some ws)
      with gf Inr have won: "get_first (validation_result all_streams) truthy rounds = (Inr (Some ws), c)"
        by simp
      from get_first_finished_split [OF won] obtain t where
        split: "concat rounds = finished (validation_result all_streams) truthy rounds @ c"
        and tr: "truthy ws"
        and t: "validation_result all_streams t = Inr ws"
          "t \<in> set (finished (validation_result all_streams) truthy rounds)"
        by blast
      from Cons.prems(3) unfold Inr Some tr have
        eqs: "ws = Some w" "after = validated" "cancelled = c"
        by simp_all
      from t(1) eqs(1) validation_result_Some have
        w: "w = t" "working_slot (snd (working_external_self (all_streams ! t))) = Some True"
        by blast+
      from split t(2) have "t \<in> set (concat rounds)"
        by (metis Un_iff set_append)
      with sub here have t_len: "t < length all_streams"
        by blast
      from dr split t(2) have not_c: "t \<notin> set c"
        by (metis distinct_append disjoint_iff)
      from split sub pg have c_sub: "set c \<subseteq> set (concat (map snd (pg # groups)))"
        by (metis Un_iff set_append subsetI subsetD concat.simps(2) list.simps(9) snd_conv)
      from nth_finish_validations [OF t_len] t(2) have
        "validated ! t = snd (working_external_self (all_streams ! t))"
        by (simp add: validated_def)
      with w eqs len t_len not_c c_sub show ?thesis
        by simp
    qed
  qed
qed

lemma Episode_streams_frame:
  "Episode_streams registry self = (r, self') \<Longrightarrow> stream_slot self' = stream_slot self"
  by (auto simp: Episode_streams_def cached_property_def streams_body_def
      split: option.splits sum.splits prod.splits)

lemma stream_run_winner:
  assumes wf: "\<forall>g. distinct g \<longrightarrow> distinct (concat (wait g)) \<and> set (concat (wait g)) \<subseteq> set g"
    and run: "stream_run wait registry self = (Inr (Some w), self1, started, cancelled)"
  shows "stream_slot self1 = stream_slot self \<and> w \<notin> set cancelled \<and>
    (\<exists>s. deref self1 w = Some s \<and> working_slot s = Some True)"
proof -
  obtain r0 self0 where es: "Episode_streams registry self = (r0, self0)"
    by (cases "Episode_streams registry self")
  from run es obtain all_streams where r0: "r0 = Inr all_streams"
    by (cases r0) (simp_all add: stream_run_def)
  define sorted_streams where "sorted_streams = py_sort_reverse PRIORITY all_streams"
  define groups where
    "groups = groupby (\<lambda>i. PRIORITY (sorted_streams ! i)) [0..<length sorted_streams]"
  obtain r after started' cancelled' where
    sg: "stream_groups wait groups sorted_streams = (r, after, started', cancelled')"
    by (cases "stream_groups wait groups sorted_streams") auto
  from run es r0 sg have eqs: "r = Inr (Some w)" "self1 = self0\<lparr>streams_slot := Some after\<rparr>"
      "cancelled' = cancelled"
    by (simp_all add: stream_run_def Let_def sorted_streams_def [symmetric] groups_def [symmetric])
  have cc: "concat (map snd groups) = [0..<length sorted_streams]"
    by (simp add: groups_def concat_groupby)
  then have d: "distinct (concat (map snd groups))"
    and rng: "\<forall>i \<in> set (concat (map snd groups)). i < length sorted_streams"
    by simp_all
  from stream_groups_winner [OF wf d rng sg [unfolded eqs]] have
    "w < length after" "working_slot (after ! w) = Some True" "w \<notin> set cancelled"
    by simp_all
  moreover from Episode_streams_frame [OF es] eqs(2) have "stream_slot self1 = stream_slot self"
    by simp
  ultimately show ?thesis
    by (simp add: deref_def eqs(2))
qed

lemma Episode_stream_ref_run:
  "stream_slot self = None \<Longrightarrow> stream_run wait registry self = (Inr v, self1, started, cancelled) \<Longrightarrow>
   Episode_stream_ref wait registry self = (Inr v, self1\<lparr>stream_slot := Some v\<rparr>)"
  by (simp add: Episode_stream_ref_def cached_property_def stream_body_def)

lemma Episode_stream_cached:
  "stream_slot self = Some (Some w) \<Longrightarrow>
   Episode_stream wait registry self = (Inr (deref self w), self)"
  by (simp add: Episode_stream_def Episode_stream_ref_def cached_property_def)

lemma finish_cancelled_stream_slot: "stream_slot (finish_cancelled j self) = stream_slot self"
  by (simp add: finish_cancelled_def split: option.splits)

lemma finish_cancelled_deref: "j \<noteq> w \<Longrightarrow> deref (finish_cancelled j self) w = deref self w"
  by (simp add: finish_cancelled_def deref_def split: option.splits)

lemma finish_all_cancelled_frame:
  "w \<notin> set js \<Longrightarrow>
   stream_slot (foldr finish_cancelled js self) = stream_slot self \<and>
   deref (foldr finish_cancelled js self) w = deref self w"
  by (induction js) (auto simp: finish_cancelled_stream_slot finish_cancelled_deref)

lemma deref_stream_slot_update: "deref (self\<lparr>stream_slot := v\<rparr>) w = deref self w"
  by (simp add: deref_def)

text \<open>
  C3. When \<open>get_first\<close> returns a winner, the winner is the first member of some round \<open>n\<close>
  and the computations cancelled are exactly those of the later rounds: every computation
  still outstanding at that moment. The list of cancelled computations is part of what the
  call returns, so it is complete when the winner is returned.

  For \<open>Episode.stream\<close>, let the rounds of every group be made of the validations of the
  group, each at most once, and let a first read of \<open>Episode.stream\<close> find the winner at
  position \<open>w\<close> of \<open>_streams\<close> and cancel the validations \<open>cancelled_streams\<close>. Then the
  read returns the object at \<open>w\<close> and memoizes it; its validation has cached \<open>True\<close>
  in it; it is not among the cancelled validations. Whichever of the cancelled validations
  complete afterwards, in any order, the slot still refers to \<open>w\<close>, the object at \<open>w\<close> is
  as it was when it was returned, and a later read of \<open>Episode.stream\<close> returns it,
  whatever the wait and the registry are by then.
\<close>

theorem get_first_cancels_outstanding_winner_kept:
  "(get_first result_of predicate rounds = (Inr (Some v), cancelled) \<longrightarrow>
      (\<exists>n t others. n < length rounds \<and> rounds ! n = t # others \<and> result_of t = Inr v \<and>
         predicate v \<and> cancelled = concat (drop (Suc n) rounds)))
   \<and> ((\<forall>g. distinct g \<longrightarrow> distinct (concat (wait g)) \<and> set (concat (wait g)) \<subseteq> set g) \<and>
       stream_slot self = None \<and>
       stream_run wait registry self = (Inr (Some w), self1, started, cancelled_streams) \<longrightarrow>
        Episode_stream wait registry self
          = (Inr (deref self1 w), self1\<lparr>stream_slot := Some (Some w)\<rparr>) \<and>
        (\<exists>s. deref self1 w = Some s \<and> working_slot s = Some True) \<and>
        w \<notin> set cancelled_streams \<and>
        (\<forall>js. set js \<subseteq> set cancelled_streams \<longrightarrow>
           stream_slot (foldr finish_cancelled js (self1\<lparr>stream_slot := Some (Some w)\<rparr>))
             = Some (Some w) \<and>
           deref (foldr finish_cancelled js (self1\<lparr>stream_slot := Some (Some w)\<rparr>)) w
             = deref self1 w \<and>
           Episode_stream wait' registry' (foldr finish_cancelled js (self1\<lparr>stream_slot := Some (Some w)\<rparr>))
             = (Inr (deref self1 w), foldr finish_cancelled js (self1\<lparr>stream_slot := Some (Some w)\<rparr>))))"
proof (intro conjI impI allI)
  assume "get_first result_of predicate rounds = (Inr (Some v), cancelled)"
  then show "\<exists>n t others. n < length rounds \<and> rounds ! n = t # others \<and> result_of t = Inr v \<and>
         predicate v \<and> cancelled = concat (drop (Suc n) rounds)"
    by (rule get_first_winner_round)
next
  assume a: "(\<forall>g. distinct g \<longrightarrow> distinct (concat (wait g)) \<and> set (concat (wait g)) \<subseteq> set g) \<and>
       stream_slot self = None \<and>
       stream_run wait registry self = (Inr (Some w), self1, started, cancelled_streams)"
  then have wf: "\<forall>g. distinct g \<longrightarrow> distinct (concat (wait g)) \<and> set (concat (wait g)) \<subseteq> set g"
    and unset: "stream_slot self = None"
    and run: "stream_run wait registry self = (Inr (Some w), self1, started, cancelled_streams)"
    by blast+
  define self2 where "self2 = self1\<lparr>stream_slot := Some (Some w)\<rparr>"
  from stream_run_winner [OF wf run] show
    winner: "\<exists>s. deref self1 w = Some s \<and> working_slot s = Some True"
    and not_cancelled: "w \<notin> set cancelled_streams"
    by blast+
  from Episode_stream_ref_run [OF unset run] show
    "Episode_stream wait registry self = (Inr (deref self1 w), self1\<lparr>stream_slot := Some (Some w)\<rparr>)"
    by (simp add: Episode_stream_def deref_stream_slot_update)
  fix js
  assume "set js \<subseteq> set cancelled_streams"
  with not_cancelled have "w \<notin> set js"
    by blast
  from finish_all_cancelled_frame [OF this, of self2] show
    kept: "stream_slot (foldr finish_cancelled js (self1\<lparr>stream_slot := Some (Some w)\<rparr>)) = Some (Some w)"
    and same: "deref (foldr finish_cancelled js (self1\<lparr>stream_slot := Some (Some w)\<rparr>)) w = deref self1 w"
    by (simp_all add: self2_def deref_stream_slot_update)
  from Episode_stream_cached [OF kept] same show
    "Episode_stream wait' registry' (foldr finish_cancelled js (self1\<lparr>stream_slot := Some (Some w)\<rparr>))
       = (Inr (deref self1 w), foldr finish_cancelled js (self1\<lparr>stream_slot := Some (Some w)\<rparr>))"
    by simp
qed

text \<open>
  A race over four computations in three rounds, won in the second round, cancels the two
  of the third round. An episode with two working candidates of equal priority whose
  validations finish one after the other: the first wins, its validation has cached
  \<open>True\<close> in it, and the episode memoizes it; the validation of the second is cancelled.
  When the cancelled validation completes, it caches \<open>False\<close> in the second stream; the
  episode's slot still holds the first stream, unchanged, and a later read returns it.
\<close>

theorem get_first_cancels_outstanding_winner_kept_witness:
  "(let a = \<lparr>dirty_slot = False, PRIORITY = 100, HOST = None, req = ''http://one/a'',
              persist = False, external = Inr True, links = Inr [''http://one/a.mp4''],
              links_slot = None, poster_slot = None, working_slot = None, links_awaited = 0,
              links_cached = False\<rparr>;
        b = \<lparr>dirty_slot = False, PRIORITY = 100, HOST = None, req = ''http://two/b'',
              persist = False, external = Inr True, links = Inr [''http://two/b.mp4''],
              links_slot = None, poster_slot = None, working_slot = None, links_awaited = 0,
              links_cached = False\<rparr>;
        e = \<lparr>dirty_slot = False, raw_streams = Inr [], streams_slot = Some [a, b],
              stream_slot = None\<rparr>;
        a' = a\<lparr>working_slot := Some True, links_awaited := 1\<rparr>;
        e' = e\<lparr>streams_slot := Some [a', b], stream_slot := Some (Some 0)\<rparr>;
        e'' = foldr finish_cancelled [1] e'
    in get_first (\<lambda>t. Inr t) (\<lambda>v. (0::int) < v) [[0], [1], [2, 3]] = (Inr (Some 1), [2, 3])
       \<and> (\<exists>n t others. n < length [[0], [1], [2, 3::int]] \<and> [[0], [1], [2, 3]] ! n = t # others \<and>
             (Inr t :: error + int) = Inr 1 \<and>
             [2, 3::int] = concat (drop (Suc n) [[0], [1], [2, 3]]))
       \<and> stream_run (map (\<lambda>s. [s])) [] e
           = (Inr (Some 0), e\<lparr>streams_slot := Some [a', b]\<rparr>, [0, 1], [1])
       \<and> Episode_stream (map (\<lambda>s. [s])) [] e = (Inr (Some a'), e')
       \<and> map working_slot (the (streams_slot e'')) = [Some True, Some False]
       \<and> stream_slot e'' = Some (Some 0)
       \<and> deref e'' 0 = Some a'
       \<and> Episode_stream (\<lambda>group. [group]) [] e'' = (Inr (Some a'), e''))"
proof -
  define a where "a = \<lparr>dirty_slot = False, PRIORITY = 100, HOST = None, req = ''http://one/a'',
              persist = False, external = Inr True, links = Inr [''http://one/a.mp4''],
              links_slot = None, poster_slot = None, working_slot = None, links_awaited = 0,
              links_cached = False\<rparr>"
  define b where "b = \<lparr>dirty_slot = False, PRIORITY = 100, HOST = None, req = ''http://two/b'',
              persist = False, external = Inr True, links = Inr [''http://two/b.mp4''],
              links_slot = None, poster_slot = None, working_slot = None, links_awaited = 0,
              links_cached = False\<rparr>"
  define e where "e = \<lparr>dirty_slot = False, raw_streams = Inr [], streams_slot = Some [a, b],
              stream_slot = None\<rparr>"
  define a' where "a' = a\<lparr>working_slot := Some True, links_awaited := 1\<rparr>"
  define e1 where "e1 = e\<lparr>streams_slot := Some [a', b]\<rparr>"
  define e' where "e' = e\<lparr>streams_slot := Some [a', b], stream_slot := Some (Some 0)\<rparr>"
  define e'' where "e'' = foldr finish_cancelled [1] e'"
  have race: "get_first (\<lambda>t. Inr t) (\<lambda>v. (0::int) < v) [[0], [1], [2, 3]] = (Inr (Some 1), [2, 3])"
    by simp
  have wf: "\<forall>g::nat list. distinct g \<longrightarrow>
      distinct (concat (map (\<lambda>s. [s]) g)) \<and> set (concat (map (\<lambda>s. [s]) g)) \<subseteq> set g"
    by simp
  have unset: "stream_slot e = None"
    by (simp add: e_def)
  have run: "stream_run (map (\<lambda>s. [s])) [] e = (Inr (Some 0), e1, [0, 1], [1])"
    by (simp add: e1_def e_def a'_def a_def b_def stream_run_def Episode_streams_def
        cached_property_def py_sort_reverse_def validation_result_def finish_validations_def
        working_external_self_def working_def working_body_def truthy_def)
  have e'_eq: "e' = e1\<lparr>stream_slot := Some (Some 0)\<rparr>"
    by (simp add: e'_def e1_def)
  have d1: "deref e1 0 = Some a'"
    by (simp add: deref_def e1_def)
  have own: "map working_slot (the (streams_slot e'')) = [Some True, Some False]"
    by (simp add: e''_def e'_def e_def a'_def a_def b_def finish_cancelled_def
        cancelled_validation_def working_external_self_def working_def working_body_def
        cached_property_def)
  note th = get_first_cancels_outstanding_winner_kept
    [of "\<lambda>t. Inr t" "\<lambda>v. (0::int) < v" "[[0], [1], [2, 3]]" 1 "[2, 3]"
        "map (\<lambda>s. [s])" e "[]" 0 e1 "[0, 1]" "[1]" "\<lambda>group. [group]" "[]"]
  from th race have
    first: "\<exists>n t others. n < length [[0], [1], [2, 3::int]] \<and> [[0], [1], [2, 3]] ! n = t # others \<and>
             (Inr t :: error + int) = Inr 1 \<and> (0::int) < 1 \<and>
             [2, 3::int] = concat (drop (Suc n) [[0], [1], [2, 3]])"
    by blast
  from th wf unset run have
    second: "Episode_stream (map (\<lambda>s. [s])) [] e = (Inr (deref e1 0), e')"
    and rest: "\<forall>js. set js \<subseteq> set [1::nat] \<longrightarrow>
           stream_slot (foldr finish_cancelled js e') = Some (Some 0) \<and>
           deref (foldr finish_cancelled js e') 0 = deref e1 0 \<and>
           Episode_stream (\<lambda>group. [group]) [] (foldr finish_cancelled js e')
             = (Inr (deref e1 0), foldr finish_cancelled js e')"
    unfolding e'_eq by blast+
  from rest [rule_format, of "[1]"] d1 have
    "stream_slot e'' = Some (Some 0)" "deref e'' 0 = Some a'"
    "Episode_stream (\<lambda>group. [group]) [] e'' = (Inr (Some a'), e'')"
    unfolding e''_def by simp_all
  with race first second [unfolded d1] run [unfolded e1_def] own show ?thesis
    unfolding Let_def a_def [symmetric] b_def [symmetric] e_def [symmetric] a'_def [symmetric]
      e'_def [symmetric] e''_def [symmetric]
    by simp
qed

section \<open>Dirty flags\<close>

lemma Episode_dirty_if_stream_dirty:
  "streams_slot ep = Some streams \<Longrightarrow> s \<in> set streams \<Longrightarrow> dirty s \<Longrightarrow> Episode_dirty ep"
  by (auto simp: Episode_dirty_def list_ex_iff)

lemma Anime_dirty_if_episode_dirty:
  "episodes_slot a = Some eps \<Longrightarrow> (k, ep) \<in> set eps \<Longrightarrow> Episode_dirty ep \<Longrightarrow> Anime_dirty a"
  by (force simp: Anime_dirty_def list_ex_iff)

lemma Episode_set_dirty_False_clean: "\<not> Episode_dirty (Episode_set_dirty False ep)"
  by (auto simp: Episode_dirty_def Episode_set_dirty_def Let_def list_ex_iff dirty_def set_dirty_def
      split: option.splits)

lemma Episode_set_dirty_streams:
  "streams_slot ep = Some streams \<Longrightarrow>
   streams_slot (Episode_set_dirty v ep) = Some (map (set_dirty v) streams)"
  by (simp add: Episode_set_dirty_def Let_def)

lemma Anime_set_dirty_episodes:
  "episodes_slot a = Some eps \<Longrightarrow>
   episodes_slot (Anime_set_dirty v a) = Some (map (\<lambda>(i, ep). (i, Episode_set_dirty v ep)) eps)"
  by (simp add: Anime_set_dirty_def Let_def)

text \<open>
  C5, as the claim states it, fails: clearing at the Show level is the setter of
  \<open>Anime.dirty\<close>, and that setter assigns the value to every cached episode, whose
  setter assigns it to every cached stream. A show with one episode with one dirty stream:
  after \<^verbatim>\<open>show.dirty = False\<close> the stream's flag is cleared.
\<close>

theorem show_clear_clears_children:
  "(let s = \<lparr>dirty_slot = True, PRIORITY = 100, HOST = Some ''vidstreaming.io'',
              req = ''http://vidstreaming.io/e1'', persist = False, external = Inr True,
              links = Inr [], links_slot = None, poster_slot = None, working_slot = None,
              links_awaited = 0, links_cached = False\<rparr>;
        ep = \<lparr>dirty_slot = True, raw_streams = Inr [''http://vidstreaming.io/e1''],
               streams_slot = Some [s], stream_slot = None\<rparr>;
        a = \<lparr>dirty_slot = True, get_episodes = Inr [ep], get_episode = (\<lambda>i. Inr ep),
              episodes_slot = Some [(0, ep)], episode_count_slot = Some 1, constructed = []\<rparr>
    in dirty s \<and> Episode_dirty ep \<and>
       episodes_slot (Anime_set_dirty False a)
         = Some [(0, ep\<lparr>dirty_slot := False, streams_slot := Some [s\<lparr>dirty_slot := False\<rparr>]\<rparr>)]
       \<and> \<not> dirty (s\<lparr>dirty_slot := False\<rparr>))"
  by (simp add: Anime_set_dirty_def Episode_set_dirty_def set_dirty_def dirty_def
      Episode_dirty_def Let_def)

text \<open>
  C5, amended. Setting \<open>dirty\<close> to true on a stream held in an episode's \<open>_streams\<close>
  makes that episode report dirty, and makes the show that holds the episode in its
  \<open>_episodes\<close> report dirty. Assigning \<open>False\<close> to \<open>dirty\<close> at the Show level
  cascades: afterwards the show reports not dirty, and so does every cached episode and
  every cached stream of those episodes.
\<close>

theorem dirty_propagates_up_and_clear_cascades:
  assumes "episodes_slot a = Some eps" and "p < length eps" and "eps ! p = (k, ep)"
    and "streams_slot ep = Some streams" and "j < length streams"
  shows "Episode_dirty (ep\<lparr>streams_slot := Some (streams[j := set_dirty True (streams ! j)])\<rparr>)
       \<and> Anime_dirty (a\<lparr>episodes_slot := Some (eps[p :=
            (k, ep\<lparr>streams_slot := Some (streams[j := set_dirty True (streams ! j)])\<rparr>)])\<rparr>)
       \<and> \<not> Anime_dirty (Anime_set_dirty False a)
       \<and> (\<forall>(i, ep') \<in> set (the (episodes_slot (Anime_set_dirty False a))).
             \<not> Episode_dirty ep' \<and> \<not> dirty_slot ep' \<and>
             (\<forall>streams'. streams_slot ep' = Some streams' \<longrightarrow> (\<forall>s \<in> set streams'. \<not> dirty s)))"
proof (intro conjI)
  let ?s = "set_dirty True (streams ! j)"
  let ?ep = "ep\<lparr>streams_slot := Some (streams[j := ?s])\<rparr>"
  have "?s \<in> set (streams[j := ?s])"
    using assms(5) by (rule set_update_memI)
  moreover have "dirty ?s"
    by (simp add: dirty_def set_dirty_def)
  ultimately show up: "Episode_dirty ?ep"
    by (intro Episode_dirty_if_stream_dirty [where s = ?s and streams = "streams[j := ?s]"]) simp_all
  have "(k, ?ep) \<in> set (eps[p := (k, ?ep)])"
    using assms(2) by (rule set_update_memI)
  with up show "Anime_dirty (a\<lparr>episodes_slot := Some (eps[p := (k, ?ep)])\<rparr>)"
    by (intro Anime_dirty_if_episode_dirty [where k = k and ep = ?ep and eps = "eps[p := (k, ?ep)]"])
      simp_all
next
  show "\<not> Anime_dirty (Anime_set_dirty False a)"
    using assms(1)
    by (auto simp: Anime_dirty_def Anime_set_dirty_def Let_def list_ex_iff
        Episode_set_dirty_False_clean)
next
  show "\<forall>(i, ep') \<in> set (the (episodes_slot (Anime_set_dirty False a))).
             \<not> Episode_dirty ep' \<and> \<not> dirty_slot ep' \<and>
             (\<forall>streams'. streams_slot ep' = Some streams' \<longrightarrow> (\<forall>s \<in> set streams'. \<not> dirty s))"
  proof (clarify, intro conjI allI impI ballI)
    fix i ep' assume "(i, ep') \<in> set (the (episodes_slot (Anime_set_dirty False a)))"
    with assms(1) obtain ep0 where ep': "ep' = Episode_set_dirty False ep0"
      by (auto simp: Anime_set_dirty_episodes)
    show "\<not> Episode_dirty ep'"
      by (simp add: ep' Episode_set_dirty_False_clean)
    show "\<not> dirty_slot ep'"
      by (simp add: ep' Episode_set_dirty_def Let_def split: option.splits)
    fix streams' s assume "streams_slot ep' = Some streams'" "s \<in> set streams'"
    then show "\<not> dirty s"
      by (auto simp: ep' Episode_set_dirty_def Let_def dirty_def set_dirty_def split: option.splits)
  qed
qed

text \<open>
  A clean show with one cached episode with one cached stream: marking the stream dirty
  makes the episode and the show report dirty; clearing at the show leaves the show clean.
\<close>

theorem dirty_propagates_up_and_clear_cascades_witness:
  "(let s = \<lparr>dirty_slot = False, PRIORITY = 100, HOST = Some ''vidstreaming.io'',
              req = ''http://vidstreaming.io/e1'', persist = False, external = Inr True,
              links = Inr [], links_slot = None, poster_slot = None, working_slot = None,
              links_awaited = 0, links_cached = False\<rparr>;
        ep = \<lparr>dirty_slot = False, raw_streams = Inr [''http://vidstreaming.io/e1''],
               streams_slot = Some [s], stream_slot = None\<rparr>;
        a = \<lparr>dirty_slot = False, get_episodes = Inr [ep], get_episode = (\<lambda>i. Inr ep),
              episodes_slot = Some [(0, ep)], episode_count_slot = Some 1, constructed = []\<rparr>;
        ep' = ep\<lparr>streams_slot := Some ([s][0 := set_dirty True ([s] ! 0)])\<rparr>
    in \<not> Anime_dirty a \<and> \<not> Episode_dirty ep \<and> Episode_dirty ep'
       \<and> Anime_dirty (a\<lparr>episodes_slot := Some ([(0, ep)][0 := (0, ep')])\<rparr>)
       \<and> \<not> Anime_dirty (Anime_set_dirty False a))"
proof -
  define s where "s = \<lparr>dirty_slot = False, PRIORITY = 100, HOST = Some ''vidstreaming.io'',
              req = ''http://vidstreaming.io/e1'', persist = False, external = Inr True,
              links = Inr [], links_slot = None, poster_slot = None, working_slot = None,
              links_awaited = 0, links_cached = False\<rparr>"
  define ep where "ep = \<lparr>dirty_slot = False, raw_streams = Inr [''http://vidstreaming.io/e1''],
               streams_slot = Some [s], stream_slot = None\<rparr>"
  define a where "a = \<lparr>dirty_slot = False, get_episodes = Inr [ep], get_episode = (\<lambda>i. Inr ep),
              episodes_slot = Some [(0, ep)], episode_count_slot = Some 1, constructed = []\<rparr>"
  have h: "episodes_slot a = Some [(0, ep)]" "(0::nat) < length [(0::int, ep)]"
    "[(0::int, ep)] ! 0 = (0, ep)" "streams_slot ep = Some [s]" "(0::nat) < length [s]"
    by (simp_all add: a_def ep_def)
  have clean: "\<not> Anime_dirty a" "\<not> Episode_dirty ep"
    by (simp_all add: a_def ep_def s_def Anime_dirty_def Episode_dirty_def dirty_def)
  from dirty_propagates_up_and_clear_cascades [OF h] clean show ?thesis
    unfolding Let_def s_def [symmetric] ep_def [symmetric] a_def [symmetric]
    by blast
qed

section \<open>Anime.episodes and Anime.get\<close>

lemma dict_set_absent: "map_of d k = None \<Longrightarrow> dict_set k v d = d @ [(k, v)]"
  by (induction d) (auto split: if_splits)

lemma map_of_dict_enumerate:
  "map_of (dict_enumerate eps) i =
     (if 0 \<le> i \<and> i < int (length eps) then Some (eps ! nat i) else None)"
proof -
  have "map_of (zip (map int [0..<length eps]) eps) i =
     (if 0 \<le> i \<and> i < int (length eps) then Some (eps ! nat i) else None)"
  proof (induction eps rule: rev_induct)
    case Nil
    then show ?case by simp
  next
    case (snoc ep eps)
    have z: "zip (map int [0..<length (eps @ [ep])]) (eps @ [ep]) =
          zip (map int [0..<length eps]) eps @ [(int (length eps), ep)]"
      by simp
    show ?case
      unfolding z map_of_append using snoc
      by (auto simp: nth_append map_add_def split: option.splits)
  qed
  then show ?thesis by (simp add: dict_enumerate_def)
qed

lemma fill_missing_frame:
  "fill_missing indices self d = (r, self', d') \<Longrightarrow>
   \<exists>new calls. d' = d @ new \<and> self' = self\<lparr>constructed := constructed self @ calls\<rparr> \<and>
     (\<forall>i \<in> set calls. i \<in> set indices \<and> map_of d i = None) \<and>
     (\<forall>i \<in> fst ` set new. i \<in> set indices \<and> map_of d i = None)"
proof (induction indices arbitrary: self d)
  case Nil
  then have "d' = d @ []" "self' = self\<lparr>constructed := constructed self @ []\<rparr>"
    by simp_all
  then show ?case
    by (intro exI [where x = "[]"]) simp_all
next
  case (Cons i indices)
  show ?case
  proof (cases "map_of d i = None")
    case False
    with Cons.prems have "fill_missing indices self d = (r, self', d')"
      by auto
    from Cons.IH [OF this] obtain new calls where
      n: "d' = d @ new" "self' = self\<lparr>constructed := constructed self @ calls\<rparr>"
      "\<forall>j \<in> set calls. j \<in> set indices \<and> map_of d j = None"
      "\<forall>j \<in> fst ` set new. j \<in> set indices \<and> map_of d j = None"
      by (elim exE conjE)
    show ?thesis
    proof (rule exI [where x = new], rule exI [where x = calls], intro conjI)
      show "d' = d @ new" by (rule n(1))
      show "self' = self\<lparr>constructed := constructed self @ calls\<rparr>" by (rule n(2))
      show "\<forall>j \<in> set calls. j \<in> set (i # indices) \<and> map_of d j = None"
        using n(3) by simp
      show "\<forall>j \<in> fst ` set new. j \<in> set (i # indices) \<and> map_of d j = None"
        using n(4) by simp
    qed
  next
    case absent: True
    show ?thesis
    proof (cases "get_episode self i")
      case (Inl e)
      with absent Cons.prems have e: "d' = d @ []"
        "self' = self\<lparr>constructed := constructed self @ [i]\<rparr>"
        by simp_all
      show ?thesis
      proof (rule exI [where x = "[]::(int \<times> episode) list"], rule exI [where x = "[i]"], intro conjI)
        show "d' = d @ []" by (rule e(1))
        show "self' = self\<lparr>constructed := constructed self @ [i]\<rparr>" by (rule e(2))
        show "\<forall>j \<in> set [i]. j \<in> set (i # indices) \<and> map_of d j = None"
          using absent by simp
        show "\<forall>j \<in> fst ` set []. j \<in> set (i # indices) \<and> map_of d j = None"
          by simp
      qed
    next
      case (Inr ep)
      let ?self = "self\<lparr>constructed := constructed self @ [i]\<rparr>"
      from Inr absent Cons.prems
      have "fill_missing indices ?self (d @ [(i, ep)]) = (r, self', d')"
        by (simp add: dict_set_absent)
      from Cons.IH [OF this] obtain new calls where
        n: "d' = (d @ [(i, ep)]) @ new"
        "self' = ?self\<lparr>constructed := constructed ?self @ calls\<rparr>"
        "\<forall>j \<in> set calls. j \<in> set indices \<and> map_of (d @ [(i, ep)]) j = None"
        "\<forall>j \<in> fst ` set new. j \<in> set indices \<and> map_of (d @ [(i, ep)]) j = None"
        by (elim exE conjE)
      have weaken: "map_of d j = None" if "map_of (d @ [(i, ep)]) j = None" for j
        using that by (simp add: map_add_def split: option.splits if_splits)
      show ?thesis
      proof (rule exI [where x = "(i, ep) # new"], rule exI [where x = "i # calls"], intro conjI)
        show "d' = d @ (i, ep) # new" using n(1) by simp
        show "self' = self\<lparr>constructed := constructed self @ i # calls\<rparr>"
          using n(2) by simp
        show "\<forall>j \<in> set (i # calls). j \<in> set (i # indices) \<and> map_of d j = None"
          using n(3) absent by (auto dest: weaken)
        show "\<forall>j \<in> fst ` set ((i, ep) # new). j \<in> set (i # indices) \<and> map_of d j = None"
          using n(4) absent by (auto dest: weaken)
      qed
    qed
  qed
qed

lemma fill_missing_success:
  "distinct indices \<Longrightarrow> fill_missing indices self d = (None, self', d') \<Longrightarrow>
   d' = d @ map (\<lambda>i. (i, projr (get_episode self i))) (filter (\<lambda>i. map_of d i = None) indices) \<and>
   self' = self\<lparr>constructed := constructed self @ filter (\<lambda>i. map_of d i = None) indices\<rparr>"
proof (induction indices arbitrary: self d)
  case Nil
  then show ?case by simp
next
  case (Cons i indices)
  show ?case
  proof (cases "map_of d i = None")
    case False
    with Cons.prems have run: "fill_missing indices self d = (None, self', d')"
      by simp
    from Cons.prems have "distinct indices"
      by simp
    from Cons.IH [OF this run] False show ?thesis
      by auto
  next
    case absent: True
    show ?thesis
    proof (cases "get_episode self i")
      case (Inl e)
      with absent Cons.prems show ?thesis by simp
    next
      case (Inr ep)
      let ?self = "self\<lparr>constructed := constructed self @ [i]\<rparr>"
      from Inr absent Cons.prems
      have run: "fill_missing indices ?self (d @ [(i, ep)]) = (None, self', d')"
        by (simp add: dict_set_absent)
      from Cons.prems have di: "distinct indices" "i \<notin> set indices"
        by simp_all
      have same: "filter (\<lambda>j. map_of (d @ [(i, ep)]) j = None) indices
                = filter (\<lambda>j. map_of d j = None) indices"
        using di(2) by (intro filter_cong) (auto simp: map_add_def split: option.splits)
      from Cons.IH [OF di(1) run] same Inr absent show ?thesis
        by simp
    qed
  qed
qed

lemma fill_missing_total:
  "\<forall>i \<in> set indices. \<exists>ep. get_episode self i = Inr ep \<Longrightarrow>
   \<exists>self' d'. fill_missing indices self d = (None, self', d')"
proof (induction indices arbitrary: self d)
  case Nil
  then show ?case by simp
next
  case (Cons i indices)
  then obtain ep where ep: "get_episode self i = Inr ep"
    by auto
  let ?self = "self\<lparr>constructed := constructed self @ [i]\<rparr>"
  have "\<forall>j \<in> set indices. \<exists>ep. get_episode ?self j = Inr ep"
    using Cons.prems by simp
  from Cons.IH [OF this] have new: "\<exists>self' d'. fill_missing indices ?self (dict_set i ep d) = (None, self', d')"
    by blast
  have "\<forall>j \<in> set indices. \<exists>ep. get_episode self j = Inr ep"
    using Cons.prems by simp
  from Cons.IH [OF this] have old: "\<exists>self' d'. fill_missing indices self d = (None, self', d')"
    by blast
  show ?case
  proof (cases "map_of d i = None")
    case True
    with new ep show ?thesis by simp
  next
    case False
    with old show ?thesis by auto
  qed
qed

lemma episode_count_Inr:
  "episode_count self = (Inr n, self1) \<Longrightarrow> self1 = self\<lparr>episode_count_slot := Some n\<rparr>"
  by (auto simp: episode_count_def cached_property_def episode_count_body_def
      split: option.splits sum.splits)

lemma episode_count_Inl: "episode_count self = (Inl e, self1) \<Longrightarrow> self1 = self"
  by (auto simp: episode_count_def cached_property_def episode_count_body_def
      split: option.splits sum.splits)

lemma map_of_append_left: "map_of d k = Some v \<Longrightarrow> map_of (d @ new) k = Some v"
  by (simp add: map_add_def)

lemma distinct_range: "distinct [0..n - 1]"
  by simp

text \<open>
  C8. On a show whose \<open>_episodes\<close> is set, evaluating \<open>episodes\<close> leaves a dictionary
  that starts with the old entries, unchanged and in place, followed by new ones;
  \<open>get_episode\<close> is called only for indices that were not cached, so no cached episode
  is constructed again, and every cached index still maps to the episode it mapped to.
  When the reported count \<open>n\<close> exceeds the number of cached episodes and the evaluation
  succeeds, the indices constructed are exactly the indices of \<open>range(n)\<close> that were
  missing, in ascending order, and the new entries are those indices.
\<close>

theorem episodes_fills_only_missing:
  assumes "episodes_slot self = Some d" and "episodes self = (r, self')"
  shows "\<exists>new calls.
           episodes_slot self' = Some (d @ new) \<and>
           constructed self' = constructed self @ calls \<and>
           (\<forall>i \<in> set calls. map_of d i = None) \<and>
           (\<forall>i \<in> fst ` set new. map_of d i = None) \<and>
           (\<forall>k ep. map_of d k = Some ep \<longrightarrow> map_of (d @ new) k = Some ep) \<and>
           (\<forall>n d'. fst (episode_count self) = Inr n \<and> int (length d) < n \<and> r = Inr d' \<longrightarrow>
              d' = d @ new \<and> calls = filter (\<lambda>i. map_of d i = None) [0..n - 1] \<and>
              map fst new = calls)"
proof -
  have unchanged: ?thesis if "self' = self\<lparr>episode_count_slot := c\<rparr> \<or> self' = self"
    and "\<And>n d'. fst (episode_count self) = Inr n \<Longrightarrow> int (length d) < n \<Longrightarrow> r = Inr d' \<Longrightarrow> False" for c
  proof (rule exI [where x = "[]::(int \<times> episode) list"], rule exI [where x = "[]::int list"],
      intro conjI)
    show "episodes_slot self' = Some (d @ [])"
      using that(1) assms(1) by auto
    show "constructed self' = constructed self @ []"
      using that(1) by auto
    show "\<forall>n d'. fst (episode_count self) = Inr n \<and> int (length d) < n \<and> r = Inr d' \<longrightarrow>
              d' = d @ [] \<and> [] = filter (\<lambda>i. map_of d i = None) [0..n - 1] \<and> map fst [] = []"
      using that(2) by blast
  qed simp_all
  obtain rc self1 where ec: "episode_count self = (rc, self1)"
    by (cases "episode_count self")
  show ?thesis
  proof (cases rc)
    case (Inl e)
    with ec have "self1 = self"
      by (simp add: episode_count_Inl)
    with ec Inl assms have "self' = self"
      by (simp add: episodes_def)
    with ec Inl show ?thesis
      by (intro unchanged) simp_all
  next
    case (Inr n)
    with ec have s1: "self1 = self\<lparr>episode_count_slot := Some n\<rparr>"
      by (simp add: episode_count_Inr)
    show ?thesis
    proof (cases "int (length d) = n")
      case True
      with ec Inr assms have "self' = self1"
        by (simp add: episodes_def)
      with s1 ec Inr True show ?thesis
        by (intro unchanged [where c = "Some n"]) simp_all
    next
      case False
      obtain ro self2 d2 where fm: "fill_missing [0..n - 1] self1 d = (ro, self2, d2)"
        by (cases "fill_missing [0..n - 1] self1 d")
      from fill_missing_frame [OF fm] obtain new calls where
        fr: "d2 = d @ new" "self2 = self1\<lparr>constructed := constructed self1 @ calls\<rparr>"
        "\<forall>i \<in> set calls. i \<in> set [0..n - 1] \<and> map_of d i = None"
        "\<forall>i \<in> fst ` set new. i \<in> set [0..n - 1] \<and> map_of d i = None"
        by (elim exE conjE)
      from ec Inr assms False fm have res: "self' = self2\<lparr>episodes_slot := Some d2\<rparr>"
        "r = (case ro of Some e \<Rightarrow> Inl e | None \<Rightarrow> Inr d2)"
        by (auto simp: episodes_def split: option.splits)
      show ?thesis
      proof (rule exI [where x = new], rule exI [where x = calls], intro conjI)
        show "episodes_slot self' = Some (d @ new)"
          by (simp add: res fr)
        show "constructed self' = constructed self @ calls"
          by (simp add: res fr s1)
        show "\<forall>i \<in> set calls. map_of d i = None"
          using fr(3) by auto
        show "\<forall>i \<in> fst ` set new. map_of d i = None"
          using fr(4) by auto
        show "\<forall>k ep. map_of d k = Some ep \<longrightarrow> map_of (d @ new) k = Some ep"
          by (simp add: map_of_append_left)
        show "\<forall>m d'. fst (episode_count self) = Inr m \<and> int (length d) < m \<and> r = Inr d' \<longrightarrow>
              d' = d @ new \<and> calls = filter (\<lambda>i. map_of d i = None) [0..m - 1] \<and>
              map fst new = calls"
        proof (intro allI impI, elim conjE)
          fix m d' assume m: "fst (episode_count self) = Inr m" and ok: "r = Inr d'"
          from m ec Inr have mn: "m = n"
            by simp
          from ok res(2) have none: "ro = None" and d': "d' = d2"
            by (auto split: option.splits)
          from fill_missing_success [OF distinct_range fm [unfolded none]]
          have su: "d2 = d @ map (\<lambda>i. (i, projr (get_episode self1 i)))
                          (filter (\<lambda>i. map_of d i = None) [0..n - 1])"
            "self2 = self1\<lparr>constructed := constructed self1 @
                          filter (\<lambda>i. map_of d i = None) [0..n - 1]\<rparr>"
            by simp_all
          from su(1) fr(1) have new: "new = map (\<lambda>i. (i, projr (get_episode self1 i)))
                          (filter (\<lambda>i. map_of d i = None) [0..n - 1])"
            by simp
          have "constructed self2 = constructed self1 @ calls"
            by (simp add: fr(2))
          moreover have "constructed self2 = constructed self1 @
                          filter (\<lambda>i. map_of d i = None) [0..n - 1]"
            by (subst su(2)) simp
          ultimately have calls: "calls = filter (\<lambda>i. map_of d i = None) [0..n - 1]"
            by simp
          show "d' = d @ new \<and> calls = filter (\<lambda>i. map_of d i = None) [0..m - 1] \<and>
              map fst new = calls"
            by (simp add: d' fr(1) calls mn new comp_def)
        qed
      qed
    qed
  qed
qed

text \<open>
  A show that reports three episodes and has episode 0 cached, its streams resolved:
  \<open>episodes\<close> constructs episodes 1 and 2 only, and index 0 still holds the cached
  episode, not a fresh one.
\<close>

theorem episodes_fills_only_missing_witness:
  "(let cached = \<lparr>dirty_slot = False, raw_streams = Inr [], streams_slot = Some [],
                   stream_slot = Some None\<rparr>;
        fresh = \<lparr>dirty_slot = False, raw_streams = Inr [], streams_slot = None,
                  stream_slot = None\<rparr>;
        a = \<lparr>dirty_slot = False, get_episodes = Inr [fresh, fresh, fresh],
              get_episode = (\<lambda>i. Inr fresh), episodes_slot = Some [(0, cached)],
              episode_count_slot = Some 3, constructed = []\<rparr>
    in fst (episodes a) = Inr [(0, cached), (1, fresh), (2, fresh)]
       \<and> episodes_slot (snd (episodes a)) = Some [(0, cached), (1, fresh), (2, fresh)]
       \<and> constructed (snd (episodes a)) = [1, 2])"
proof -
  define cached where "cached = \<lparr>dirty_slot = False, raw_streams = Inr [], streams_slot = Some [],
                   stream_slot = Some None\<rparr>"
  define fresh where "fresh = \<lparr>dirty_slot = False, raw_streams = Inr [], streams_slot = None,
                  stream_slot = None\<rparr>"
  define a where "a = \<lparr>dirty_slot = False, get_episodes = Inr [fresh, fresh, fresh],
              get_episode = (\<lambda>i. Inr fresh), episodes_slot = Some [(0, cached)],
              episode_count_slot = Some 3, constructed = []\<rparr>"
  have slot: "episodes_slot a = Some [(0, cached)]"
    by (simp add: a_def)
  have run: "episodes a = (fst (episodes a), snd (episodes a))"
    by simp
  have r: "fst (episodes a) = Inr [(0, cached), (1, fresh), (2, fresh)]"
    by (simp add: a_def episodes_def episode_count_def cached_property_def upto_rec1)
  have n: "fst (episode_count a) = Inr 3"
    by (simp add: a_def episode_count_def cached_property_def)
  from episodes_fills_only_missing [OF slot run] obtain new calls where
    th: "episodes_slot (snd (episodes a)) = Some ([(0, cached)] @ new)"
    "constructed (snd (episodes a)) = constructed a @ calls"
    "\<forall>n d'. fst (episode_count a) = Inr n \<and> int (length [(0::int, cached)]) < n \<and>
        fst (episodes a) = Inr d' \<longrightarrow>
        d' = [(0, cached)] @ new \<and> calls = filter (\<lambda>i. map_of [(0, cached)] i = None) [0..n - 1] \<and>
        map fst new = calls"
    by (elim exE conjE)
  from th(3) n r have "[(0, cached), (1, fresh), (2, fresh)] = [(0, cached)] @ new"
    and "calls = filter (\<lambda>i. map_of [(0, cached)] i = None) [0..3 - 1]"
    by auto
  then have "new = [(1, fresh), (2, fresh)]" "calls = [1, 2]"
    by (simp_all add: upto_rec1)
  with th(1,2) r show ?thesis
    unfolding Let_def cached_def [symmetric] fresh_def [symmetric] a_def [symmetric]
    by (simp add: a_def)
qed

lemma keys_fill_range:
  assumes "distinct ks" and "set ks \<subseteq> {0..<n}" and "int (length ks) = n"
  shows "set ks = {0..<n::int}"
proof (rule card_subset_eq)
  show "finite {0..<n}" by simp
  show "set ks \<subseteq> {0..<n}" by (rule assms(2))
  have "card (set ks) = length ks"
    using assms(1) by (rule distinct_card)
  also have "\<dots> = nat n"
    using assms(3) by simp
  also have "\<dots> = card {0..<n}"
    by simp
  finally show "card (set ks) = card {0..<n}" .
qed

lemma episode_count_known:
  assumes "get_episodes self = Inr eps" and "int (length eps) = n"
    and "episode_count_slot self = None \<or> episode_count_slot self = Some n"
  shows "episode_count self = (Inr n, self\<lparr>episode_count_slot := Some n\<rparr>)"
proof (cases "episode_count_slot self")
  case None
  with assms(1,2) show ?thesis
    by (simp add: episode_count_def cached_property_def episode_count_body_def)
next
  case (Some m)
  with assms(3) have m: "episode_count_slot self = Some n"
    by simp
  then have "self\<lparr>episode_count_slot := Some n\<rparr> = self"
    by (cases self) simp
  with m show ?thesis
    by (simp add: episode_count_def cached_property_def)
qed

lemma raise_EpisodeNotFound_known:
  assumes "get_episodes self = Inr eps" and "int (length eps) = n"
    and "episode_count_slot self = None \<or> episode_count_slot self = Some n"
  shows "fst (raise_EpisodeNotFound index self) = Inl (EpisodeNotFound index n)"
  by (simp add: raise_EpisodeNotFound_def episode_count_known [OF assms])

lemma map_of_range_entries:
  "map_of (map (\<lambda>i. (i, f i)) ks) i = (if i \<in> set ks then Some (f i) else None)"
  by (induction ks) auto

text \<open>
  On a show whose source reports \<open>n\<close> episodes and whose cached indices lie in
  \<open>[0, n)\<close>, a successful evaluation of \<open>episodes\<close> holds exactly the indices
  \<open>[0, n)\<close> and leaves the count as it was.
\<close>

lemma episodes_domain:
  assumes ge: "get_episodes self = Inr eps" and len: "int (length eps) = n"
    and slot: "episode_count_slot self = None \<or> episode_count_slot self = Some n"
    and cache: "\<forall>d. episodes_slot self = Some d \<longrightarrow>
                 distinct (map fst d) \<and> (\<forall>k \<in> fst ` set d. 0 \<le> k \<and> k < n)"
    and constr: "\<forall>i. 0 \<le> i \<and> i < n \<longrightarrow> (\<exists>ep. get_episode self i = Inr ep)"
  shows "\<exists>d' self'. episodes self = (Inr d', self') \<and>
           (\<forall>i. (map_of d' i = None) = (\<not> (0 \<le> i \<and> i < n))) \<and>
           get_episodes self' = Inr eps \<and>
           (episode_count_slot self' = None \<or> episode_count_slot self' = Some n)"
proof (cases "episodes_slot self")
  case None
  let ?d = "dict_enumerate eps"
  from None ge have "episodes self = (Inr ?d, self\<lparr>episodes_slot := Some ?d\<rparr>)"
    by (simp add: episodes_def)
  moreover have "\<forall>i. (map_of ?d i = None) = (\<not> (0 \<le> i \<and> i < n))"
    using len by (simp add: map_of_dict_enumerate)
  ultimately show ?thesis
    using ge slot by simp
next
  case (Some d)
  with cache have dist: "distinct (map fst d)" and keys: "\<forall>k \<in> fst ` set d. 0 \<le> k \<and> k < n"
    by simp_all
  let ?s1 = "self\<lparr>episode_count_slot := Some n\<rparr>"
  have ec: "episode_count self = (Inr n, ?s1)"
    by (rule episode_count_known [OF ge len slot])
  show ?thesis
  proof (cases "int (length d) = n")
    case True
    with Some ec have run: "episodes self = (Inr d, ?s1)"
      by (simp add: episodes_def)
    have "set (map fst d) = {0..<n}"
    proof (rule keys_fill_range [OF dist])
      show "set (map fst d) \<subseteq> {0..<n}" using keys by auto
      show "int (length (map fst d)) = n" using True by simp
    qed
    then have "\<forall>i. (map_of d i = None) = (\<not> (0 \<le> i \<and> i < n))"
      by (auto simp: map_of_eq_None_iff)
    with run ge show ?thesis
      by simp
  next
    case False
    have "\<forall>i \<in> set [0..n - 1]. \<exists>ep. get_episode ?s1 i = Inr ep"
      using constr by simp
    from fill_missing_total [OF this] obtain s2 d2 where
      fm: "fill_missing [0..n - 1] ?s1 d = (None, s2, d2)"
      by blast
    let ?missing = "filter (\<lambda>i. map_of d i = None) [0..n - 1]"
    from fill_missing_success [OF distinct_range fm]
    have d2: "d2 = d @ map (\<lambda>i. (i, projr (get_episode ?s1 i))) ?missing"
      and s2: "s2 = ?s1\<lparr>constructed := constructed ?s1 @ ?missing\<rparr>"
      by simp_all
    from Some ec False fm have run: "episodes self = (Inr d2, s2\<lparr>episodes_slot := Some d2\<rparr>)"
      by (simp add: episodes_def)
    have "(map_of d2 i = None) = (\<not> (0 \<le> i \<and> i < n))" for i
    proof (cases "map_of d i")
      case None
      then show ?thesis
        by (auto simp: d2 map_add_def map_of_range_entries split: option.splits)
    next
      case (Some e)
      then have "i \<in> fst ` set d"
        by (metis map_of_eq_None_iff option.distinct(1))
      with keys have "0 \<le> i \<and> i < n"
        by blast
      with Some show ?thesis
        by (simp add: d2 map_add_def split: option.splits)
    qed
    with run ge s2 show ?thesis
      by simp
  qed
qed

text \<open>
  So \<open>Anime.get\<close> returns an episode for every index in \<open>[0, n)\<close> and raises
  \<open>EpisodeNotFound(index, n)\<close> for every other index.
\<close>

lemma Anime_get_range:
  assumes ge: "get_episodes self = Inr eps" and len: "int (length eps) = n"
    and slot: "episode_count_slot self = None \<or> episode_count_slot self = Some n"
    and cache: "\<forall>d. episodes_slot self = Some d \<longrightarrow>
                 distinct (map fst d) \<and> (\<forall>k \<in> fst ` set d. 0 \<le> k \<and> k < n)"
    and constr: "\<forall>i. 0 \<le> i \<and> i < n \<longrightarrow> (\<exists>ep. get_episode self i = Inr ep)"
  shows "(0 \<le> index \<and> index < n \<longrightarrow> (\<exists>e. fst (Anime_get self index) = Inr e)) \<and>
         (\<not> (0 \<le> index \<and> index < n) \<longrightarrow>
            fst (Anime_get self index) = Inl (EpisodeNotFound index n))"
proof -
  from episodes_domain [OF assms] obtain d' self' where
    run: "episodes self = (Inr d', self')"
    and dom: "\<And>i. (map_of d' i = None) = (\<not> (0 \<le> i \<and> i < n))"
    and ge': "get_episodes self' = Inr eps"
    and slot': "episode_count_slot self' = None \<or> episode_count_slot self' = Some n"
    by blast
  have nf: "fst (raise_EpisodeNotFound index self') = Inl (EpisodeNotFound index n)"
    by (rule raise_EpisodeNotFound_known [OF ge' len slot'])
  show ?thesis
  proof (cases "case episodes_slot self of Some d \<Rightarrow> map_of d index | None \<Rightarrow> None")
    case (Some e)
    then obtain d where d: "episodes_slot self = Some d" "map_of d index = Some e"
      by (auto split: option.splits)
    then have "index \<in> fst ` set d"
      by (metis map_of_eq_None_iff option.distinct(1))
    with cache d(1) have "0 \<le> index \<and> index < n"
      by blast
    moreover from Some have "fst (Anime_get self index) = Inr e"
      by (simp add: Anime_get_def)
    ultimately show ?thesis
      by blast
  next
    case None
    show ?thesis
    proof (cases "map_of d' index")
      case miss: None
      with None run nf have "fst (Anime_get self index) = Inl (EpisodeNotFound index n)"
        by (simp add: Anime_get_def)
      with miss dom show ?thesis
        by blast
    next
      case (Some e)
      with None run have "fst (Anime_get self index) = Inr e"
        by (simp add: Anime_get_def)
      moreover from Some dom [of index] have "0 \<le> index \<and> index < n"
        by auto
      ultimately show ?thesis
        by blast
    qed
  qed
qed

text \<open>
  C6. Take a show with \<open>n\<close> episodes: its source lists \<open>n\<close> episodes and constructs
  each of them, its memoized count, if set, is \<open>n\<close>, and the indices of its cached
  episodes, if any, are distinct and lie in \<open>[0, n)\<close>. Then \<open>Anime.get(n)\<close> raises
  \<open>EpisodeNotFound(n, n)\<close>, \<open>Anime.get(n - 1)\<close> returns an episode when \<open>n \<ge> 1\<close>,
  and \<open>Anime.get(index)\<close> raises \<open>EpisodeNotFound\<close> exactly for the indices outside
  \<open>[0, n)\<close>. For an episode whose stream candidates resolve to a list, \<open>Episode.get(index)\<close>
  raises \<open>StreamNotFound\<close> exactly when the index is outside \<open>[0, len(streams))\<close>, and
  returns the candidate at that index otherwise.
\<close>

theorem get_not_found_exactly_outside_range:
  assumes "get_episodes self = Inr eps" and "int (length eps) = n"
    and "episode_count_slot self = None \<or> episode_count_slot self = Some n"
    and "\<forall>d. episodes_slot self = Some d \<longrightarrow>
           distinct (map fst d) \<and> (\<forall>k \<in> fst ` set d. 0 \<le> k \<and> k < n)"
    and "\<forall>i. 0 \<le> i \<and> i < n \<longrightarrow> (\<exists>e. get_episode self i = Inr e)"
    and "fst (Episode_streams registry ep) = Inr streams"
  shows "fst (Anime_get self n) = Inl (EpisodeNotFound n n)
       \<and> (1 \<le> n \<longrightarrow> (\<exists>e. fst (Anime_get self (n - 1)) = Inr e))
       \<and> (\<forall>index. (\<exists>m. fst (Anime_get self index) = Inl (EpisodeNotFound index m))
                    = (\<not> (0 \<le> index \<and> index < n)))
       \<and> (\<forall>index. (fst (Episode_get registry ep index) = Inl StreamNotFound)
                    = (\<not> (0 \<le> index \<and> index < int (length streams))))
       \<and> (\<forall>index. 0 \<le> index \<and> index < int (length streams) \<longrightarrow>
                    fst (Episode_get registry ep index) = Inr (streams ! nat index))"
proof (intro conjI allI)
  note range = Anime_get_range [OF assms(1-5)]
  from range [of n] show "fst (Anime_get self n) = Inl (EpisodeNotFound n n)"
    by simp
  from range [of "n - 1"] show "1 \<le> n \<longrightarrow> (\<exists>e. fst (Anime_get self (n - 1)) = Inr e)"
    by simp
  show "(\<exists>m. fst (Anime_get self index) = Inl (EpisodeNotFound index m))
          = (\<not> (0 \<le> index \<and> index < n))" for index
    using range [of index] by (cases "0 \<le> index \<and> index < n") auto
next
  obtain self' where run: "Episode_streams registry ep = (Inr streams, self')"
    using assms(6) by (cases "Episode_streams registry ep") auto
  show "(fst (Episode_get registry ep index) = Inl StreamNotFound)
          = (\<not> (0 \<le> index \<and> index < int (length streams)))" for index
    by (simp add: Episode_get_def run)
  show "0 \<le> index \<and> index < int (length streams) \<longrightarrow>
          fst (Episode_get registry ep index) = Inr (streams ! nat index)" for index
    by (simp add: Episode_get_def run)
qed

text \<open>
  A show of two episodes and no cache: index 2 is not found, index 1 is. An episode with
  one resolved candidate: index 1 is not found, index 0 is the candidate.
\<close>

theorem get_not_found_exactly_outside_range_witness:
  "(let fresh = \<lparr>dirty_slot = False, raw_streams = Inr [], streams_slot = None,
                  stream_slot = None\<rparr>;
        a = \<lparr>dirty_slot = False, get_episodes = Inr [fresh, fresh],
              get_episode = (\<lambda>i. Inr fresh), episodes_slot = None,
              episode_count_slot = None, constructed = []\<rparr>;
        s = \<lparr>dirty_slot = False, PRIORITY = 100, HOST = Some ''vidstreaming.io'',
              req = ''http://vidstreaming.io/e1'', persist = False, external = Inr True,
              links = Inr [], links_slot = None, poster_slot = None, working_slot = None,
              links_awaited = 0, links_cached = False\<rparr>;
        ep = \<lparr>dirty_slot = False, raw_streams = Inr [''http://vidstreaming.io/e1''],
               streams_slot = Some [s], stream_slot = None\<rparr>
    in fst (Anime_get a 2) = Inl (EpisodeNotFound 2 2)
       \<and> fst (Anime_get a 1) = Inr fresh
       \<and> fst (Episode_get [] ep 1) = Inl StreamNotFound
       \<and> fst (Episode_get [] ep 0) = Inr s)"
proof -
  define fresh where "fresh = \<lparr>dirty_slot = False, raw_streams = Inr [], streams_slot = None,
                  stream_slot = None\<rparr>"
  define a where "a = \<lparr>dirty_slot = False, get_episodes = Inr [fresh, fresh],
              get_episode = (\<lambda>i. Inr fresh), episodes_slot = None,
              episode_count_slot = None, constructed = []\<rparr>"
  define s where "s = \<lparr>dirty_slot = False, PRIORITY = 100, HOST = Some ''vidstreaming.io'',
              req = ''http://vidstreaming.io/e1'', persist = False, external = Inr True,
              links = Inr [], links_slot = None, poster_slot = None, working_slot = None,
              links_awaited = 0, links_cached = False\<rparr>"
  define ep where "ep = \<lparr>dirty_slot = False, raw_streams = Inr [''http://vidstreaming.io/e1''],
               streams_slot = Some [s], stream_slot = None\<rparr>"
  have h: "get_episodes a = Inr [fresh, fresh]" "int (length [fresh, fresh]) = 2"
    "episode_count_slot a = None \<or> episode_count_slot a = Some 2"
    "\<forall>d. episodes_slot a = Some d \<longrightarrow>
           distinct (map fst d) \<and> (\<forall>k \<in> fst ` set d. 0 \<le> k \<and> k < 2)"
    "\<forall>i. 0 \<le> i \<and> i < 2 \<longrightarrow> (\<exists>e. get_episode a i = Inr e)"
    "fst (Episode_streams [] ep) = Inr [s]"
    by (simp_all add: a_def ep_def Episode_streams_def cached_property_def)
  note th = get_not_found_exactly_outside_range [OF h]
  from th have "fst (Anime_get a 2) = Inl (EpisodeNotFound 2 2)"
    by blast
  moreover have "fst (Anime_get a 1) = Inr fresh"
    by (simp add: a_def Anime_get_def episodes_def dict_enumerate_def upt_rec)
  moreover from th have "(fst (Episode_get [] ep 1) = Inl StreamNotFound)
      = (\<not> (0 \<le> (1::int) \<and> (1::int) < int (length [s])))"
    by blast
  then have "fst (Episode_get [] ep 1) = Inl StreamNotFound"
    by simp
  moreover from th have "0 \<le> (0::int) \<and> (0::int) < int (length [s]) \<longrightarrow>
      fst (Episode_get [] ep 0) = Inr ([s] ! nat 0)"
    by blast
  then have "fst (Episode_get [] ep 0) = Inr s"
    by simp
  ultimately show ?thesis
    unfolding Let_def fresh_def [symmetric] a_def [symmetric] s_def [symmetric] ep_def [symmetric]
    by blast
qed

section \<open>Episode.serialise_special\<close>

text \<open>
  C7. Serialising the attribute \<open>streams\<close> yields the states of a sublist of the
  streams, in their order. A stream whose resolved links are the empty list, whose resolved
  poster is \<open>None\<close> and whose \<open>persist\<close> is false is not in it; a stream that has
  \<open>persist\<close> true, or resolved links that are not empty, or a resolved poster that is a
  non-empty string, is in it.
\<close>

theorem serialise_special_drops_empty_streams:
  "\<exists>kept. serialise_special state_of ''streams'' (StreamsValue streams)
             = Inr (States (map state_of kept))
     \<and> kept = filter (\<lambda>s. s \<in> set kept) streams
     \<and> (\<forall>s \<in> set streams.
           links_slot s = Some [] \<and> poster_slot s = Some None \<and> \<not> persist s \<longrightarrow> s \<notin> set kept)
     \<and> (\<forall>s \<in> set streams.
           persist s \<or> (\<exists>ls. links_slot s = Some ls \<and> ls \<noteq> []) \<or>
           (\<exists>p. poster_slot s = Some (Some p) \<and> p \<noteq> []) \<longrightarrow> s \<in> set kept)"
proof -
  let ?keep = "\<lambda>s. persist s \<or> getattr_links_truth s \<or> getattr_poster_truth s"
  let ?kept = "filter ?keep streams"
  have "serialise_special state_of ''streams'' (StreamsValue streams)
          = Inr (States (map state_of ?kept))"
    by (simp add: serialise_special_def)
  moreover have "?kept = filter (\<lambda>s. s \<in> set ?kept) streams"
    by (rule filter_cong) auto
  moreover have "\<forall>s \<in> set streams.
      links_slot s = Some [] \<and> poster_slot s = Some None \<and> \<not> persist s \<longrightarrow> s \<notin> set ?kept"
    by (simp add: getattr_links_truth_def getattr_poster_truth_def)
  moreover have "\<forall>s \<in> set streams.
      persist s \<or> (\<exists>ls. links_slot s = Some ls \<and> ls \<noteq> []) \<or>
      (\<exists>p. poster_slot s = Some (Some p) \<and> p \<noteq> []) \<longrightarrow> s \<in> set ?kept"
    by (auto simp: getattr_links_truth_def getattr_poster_truth_def)
  ultimately show ?thesis
    by (intro exI [where x = ?kept] conjI)
qed

text \<open>
  Four fetched streams: one with no links, no poster and no opt-in, one with links, one
  with a poster, one that opts in. The first is dropped; the states (here the request URLs)
  of the other three are persisted in order.
\<close>

theorem serialise_special_drops_empty_streams_witness:
  "(let empty = \<lparr>dirty_slot = True, PRIORITY = 100, HOST = None, req = ''http://a/1'',
                  persist = False, external = Inr True, links = Inr [],
                  links_slot = Some [], poster_slot = Some None, working_slot = Some False,
                  links_awaited = 1, links_cached = False\<rparr>;
        with_links = empty\<lparr>req := ''http://a/2'', links_slot := Some [''http://a/2.mp4'']\<rparr>;
        with_poster = empty\<lparr>req := ''http://a/3'', poster_slot := Some (Some ''http://a/3.png'')\<rparr>;
        opted_in = empty\<lparr>req := ''http://a/4'', persist := True\<rparr>
    in serialise_special req ''streams'' (StreamsValue [empty, with_links, with_poster, opted_in])
         = Inr (States [''http://a/2'', ''http://a/3'', ''http://a/4'']))"
proof -
  define empty where "empty = \<lparr>dirty_slot = True, PRIORITY = 100, HOST = None, req = ''http://a/1'',
                  persist = False, external = Inr True, links = Inr [],
                  links_slot = Some [], poster_slot = Some None, working_slot = Some False,
                  links_awaited = 1, links_cached = False\<rparr>"
  define with_links where
    "with_links = empty\<lparr>req := ''http://a/2'', links_slot := Some [''http://a/2.mp4'']\<rparr>"
  define with_poster where
    "with_poster = empty\<lparr>req := ''http://a/3'', poster_slot := Some (Some ''http://a/3.png'')\<rparr>"
  define opted_in where "opted_in = empty\<lparr>req := ''http://a/4'', persist := True\<rparr>"
  let ?streams = "[empty, with_links, with_poster, opted_in]"
  from serialise_special_drops_empty_streams [of req ?streams] obtain kept where
    res: "serialise_special req ''streams'' (StreamsValue ?streams) = Inr (States (map req kept))"
    and sub: "kept = filter (\<lambda>s. s \<in> set kept) ?streams"
    and out: "\<forall>s \<in> set ?streams.
           links_slot s = Some [] \<and> poster_slot s = Some None \<and> \<not> persist s \<longrightarrow> s \<notin> set kept"
    and inn: "\<forall>s \<in> set ?streams.
           persist s \<or> (\<exists>ls. links_slot s = Some ls \<and> ls \<noteq> []) \<or>
           (\<exists>p. poster_slot s = Some (Some p) \<and> p \<noteq> []) \<longrightarrow> s \<in> set kept"
    by (elim exE conjE)
  from out have "empty \<notin> set kept"
    by (simp add: empty_def)
  moreover from inn have "with_links \<in> set kept" "with_poster \<in> set kept" "opted_in \<in> set kept"
    by (simp_all add: with_links_def with_poster_def opted_in_def empty_def)
  ultimately have "kept = [with_links, with_poster, opted_in]"
    by (subst sub) simp
  with res show ?thesis
    unfolding Let_def empty_def [symmetric] with_links_def [symmetric]
      with_poster_def [symmetric] opted_in_def [symmetric]
    by (simp add: with_links_def with_poster_def opted_in_def)
qed

text \<open>
  A Vidstreaming stream whose validation found no links holds the empty list in \<open>_links\<close>,
  but its poster has not been read: \<open>_poster\<close> is not set, and the stream is kept.
\<close>

lemma serialise_special_keeps_unresolved_poster:
  "(let s = snd (working (new_stream (Vidstreaming (\<lambda>url. Inr [])) ''http://vidstreaming.io/e1''))
    in links_slot s = Some [] \<and> working_slot s = Some False \<and> poster_slot s = None \<and>
       serialise_special req ''streams'' (StreamsValue [s])
         = Inr (States [''http://vidstreaming.io/e1'']))"
  by (simp add: working_def cached_property_def working_body_def new_stream_def Vidstreaming_def
      serialise_special_def getattr_links_truth_def getattr_poster_truth_def)

section \<open>Episode.streams\<close>

text \<open>
  The host of a reference is compared in lower case and without user information and port.
\<close>

lemma can_handle_host_normalised:
  "can_handle (Vidstreaming fetch_links) ''http://VIDSTREAMING.IO/e1'' = Inr True \<and>
   can_handle (Vidstreaming fetch_links) ''http://user@vidstreaming.io:8080/e1'' = Inr True \<and>
   can_handle (Vidstreaming fetch_links) ''http://www.vidstreaming.io/e1'' = Inr True \<and>
   can_handle (Vidstreaming fetch_links) ''http://unknown-host/x'' = Inr False \<and>
   can_handle (Vidstreaming fetch_links) ''vidstreaming.io'' = Inl (OtherException ''AttributeError'')"
  by (simp add: can_handle_def url_host_def lower_char_def lstrip_def Vidstreaming_def)


lemma gather_length: "gather rs = Inr vs \<Longrightarrow> length vs = length rs"
proof (induction rs arbitrary: vs)
  case Nil
  then show ?case by simp
next
  case (Cons r rs)
  then show ?case
    by (cases r; cases "gather rs") auto
qed

lemma py_sort_reverse_descending:
  "sorted_wrt (\<lambda>x y. x \<ge> y) (map key (py_sort_reverse key xs))"
proof -
  have "sorted (map key (sort_key key (rev xs)))"
    by (rule sorted_sort_key)
  then have "sorted_wrt (\<lambda>x y. x \<ge> y) (rev (map key (sort_key key (rev xs))))"
    by (simp add: sorted_wrt_rev)
  then show ?thesis
    by (simp add: py_sort_reverse_def rev_map)
qed


lemma can_handle_host:
  "url_host url = Some h \<Longrightarrow> can_handle cls url = Inr (Some (lstrip ''www.'' h) = cls_HOST cls)"
  by (simp add: can_handle_def)







section \<open>search_anime\<close>

lemma try_build_UID_init: "try_build (UID_init args) = Inr (map_option UID (args ''uid''))"
  by (simp add: try_build_def UID_init_def split: option.splits)

lemma convert_error:
  "\<forall>v e. converter v = Inl e \<longrightarrow> e \<in> {ValueError, TypeError, KeyError} \<Longrightarrow>
   convert converter v = Inl e \<Longrightarrow> e = ValueError \<or> e = KeyError"
  by (auto simp: convert_def split: sum.splits if_splits)

lemma try_build_Query_init:
  assumes "\<forall>v e. get_lang env v = Inl e \<longrightarrow> e \<in> {ValueError, TypeError, KeyError}"
    and "\<forall>v e. fuzzy_bool env v = Inl e \<longrightarrow> e \<in> {ValueError, TypeError, KeyError}"
  shows "try_build (Query_init env args) \<noteq> Inl e"
proof
  assume "try_build (Query_init env args) = Inl e"
  then have init: "Query_init env args = Inl e" and e: "e \<noteq> ValueError" "e \<noteq> KeyError"
    by (auto simp: try_build_def split: sum.splits if_splits)
  from init consider
      "e = KeyError"
    | v where "convert (get_lang env) v = Inl e"
    | v where "convert (fuzzy_bool env) v = Inl e"
    by (auto simp: Query_init_def map_sum_def split: option.splits sum.splits)
  then show False
  proof cases
    case 1
    with e show False by simp
  next
    case 2
    from convert_error [OF assms(1) this] e show False by simp
  next
    case 3
    from convert_error [OF assms(2) this] e show False by simp
  qed
qed

lemma build_error:
  assumes "\<forall>v e. get_lang env v = Inl e \<longrightarrow> e \<in> {ValueError, TypeError, KeyError}"
    and "\<forall>v e. fuzzy_bool env v = Inl e \<longrightarrow> e \<in> {ValueError, TypeError, KeyError}"
    and "build env args = Inl e"
  shows "e = InvalidRequest"
  using assms(3) try_build_Query_init [OF assms(1,2), of args]
  by (auto simp: build_def try_build_UID_init split: option.splits sum.splits)

lemma search_params_error: "search_params env query = Inl e \<Longrightarrow> e = InvalidRequest"
  by (auto simp: search_params_def split: anime_query.splits)

lemma map_certainty_loaded:
  "length loaded = length results \<Longrightarrow>
   map certainty (map (\<lambda>(result, a). result\<lparr>anime := a\<rparr>) (zip results loaded))
     = map certainty results"
  by (induction results loaded rule: list_induct2') simp_all

text \<open>
  C10. The number of results requested is what \<open>_get_int_param\<close> reads from the parameter
  \<open>results\<close> with default 1. When the parameter is absent, it is 1. When it is outside
  1..20 and the converters of \<open>language\<close> and \<open>dubbed\<close> raise nothing but
  \<open>ValueError\<close>, \<open>TypeError\<close> or \<open>KeyError\<close>, \<open>search_anime\<close> raises
  \<open>InvalidRequest\<close>. When \<open>search_anime\<close> returns, the number requested is within
  1..20, the results are at most that many, and their certainties are in descending order.
\<close>

theorem search_anime_count_in_range_sorted:
  "(args ''results'' = None \<longrightarrow> get_int_param env args ''results'' (Some 1) = Inr 1)
   \<and> ((\<forall>v e. get_lang env v = Inl e \<longrightarrow> e \<in> {ValueError, TypeError, KeyError}) \<and>
       (\<forall>v e. fuzzy_bool env v = Inl e \<longrightarrow> e \<in> {ValueError, TypeError, KeyError}) \<and>
       get_int_param env args ''results'' (Some 1) = Inr n \<and> \<not> (1 \<le> n \<and> n \<le> 20) \<longrightarrow>
         search_anime env args = Inl InvalidRequest)
   \<and> (search_anime env args = Inr results \<longrightarrow>
         (\<exists>m. get_int_param env args ''results'' (Some 1) = Inr m \<and> 1 \<le> m \<and> m \<le> 20 \<and>
              int (length results) \<le> m) \<and>
         sorted_wrt (\<lambda>x y. x \<ge> y) (map certainty results))"
proof (intro conjI impI)
  assume "args ''results'' = None"
  then show "get_int_param env args ''results'' (Some 1) = Inr 1"
    by (simp add: get_int_param_def)
next
  assume a: "(\<forall>v e. get_lang env v = Inl e \<longrightarrow> e \<in> {ValueError, TypeError, KeyError}) \<and>
       (\<forall>v e. fuzzy_bool env v = Inl e \<longrightarrow> e \<in> {ValueError, TypeError, KeyError}) \<and>
       get_int_param env args ''results'' (Some 1) = Inr n \<and> \<not> (1 \<le> n \<and> n \<le> 20)"
  then have lang: "\<forall>v e. get_lang env v = Inl e \<longrightarrow> e \<in> {ValueError, TypeError, KeyError}"
    and dub: "\<forall>v e. fuzzy_bool env v = Inl e \<longrightarrow> e \<in> {ValueError, TypeError, KeyError}"
    and n: "get_int_param env args ''results'' (Some 1) = Inr n" "\<not> (0 < n \<and> n \<le> 20)"
    by auto
  show "search_anime env args = Inl InvalidRequest"
  proof (cases "build env args")
    case (Inl e)
    with build_error [OF lang dub Inl] show ?thesis
      by (simp add: search_anime_def)
  next
    case query: (Inr query)
    show ?thesis
    proof (cases "search_params env query")
      case (Inl e)
      with search_params_error [OF Inl] query show ?thesis
        by (simp add: search_anime_def)
    next
      case (Inr filters)
      with query n show ?thesis
        by (simp add: search_anime_def split: option.splits)
    qed
  qed
next
  assume ok: "search_anime env args = Inr results"
  then have "\<exists>m pool loaded.
      get_int_param env args ''results'' (Some 1) = Inr m \<and> 0 < m \<and> m \<le> 20 \<and>
      gather (map (\<lambda>result. preload_attrs env (anime result))
                (take (nat m) (py_sort_reverse certainty pool))) = Inr loaded \<and>
      results = take (nat m) (map (\<lambda>(result, a). result\<lparr>anime := a\<rparr>)
                  (zip (take (nat m) (py_sort_reverse certainty pool)) loaded))"
    by (auto simp: search_anime_def Let_def split: sum.splits option.splits if_splits)
  then obtain m pool loaded where
    m: "get_int_param env args ''results'' (Some 1) = Inr m" "0 < m" "m \<le> 20"
    and g: "gather (map (\<lambda>result. preload_attrs env (anime result))
                (take (nat m) (py_sort_reverse certainty pool))) = Inr loaded"
    and r: "results = take (nat m) (map (\<lambda>(result, a). result\<lparr>anime := a\<rparr>)
                  (zip (take (nat m) (py_sort_reverse certainty pool)) loaded))"
    by blast
  from r have "length results \<le> nat m"
    by simp
  with m show "\<exists>m. get_int_param env args ''results'' (Some 1) = Inr m \<and> 1 \<le> m \<and> m \<le> 20 \<and>
              int (length results) \<le> m"
    by (intro exI [where x = m]) auto
  from gather_length [OF g] have
    "length loaded = length (take (nat m) (py_sort_reverse certainty pool))"
    by simp
  from map_certainty_loaded [OF this] r have
    "map certainty results
       = take (nat m) (take (nat m) (map certainty (py_sort_reverse certainty pool)))"
    by (simp add: take_map)
  with py_sort_reverse_descending [of certainty pool]
  show "sorted_wrt (\<lambda>x y. x \<ge> y) (map certainty results)"
    by (simp add: sorted_wrt_take)
qed

text \<open>
  A search whose iterator yields four results with certainties 50, 90, 70 and 100 (in
  hundredths). Without the parameter \<open>results\<close> one result is requested and the best of
  the first three comes back; with \<open>results=2\<close> the two best of the first three come
  back, in descending order; with \<open>results=21\<close> the request is refused.
\<close>

theorem search_anime_count_in_range_sorted_witness:
  "(let env = \<lparr>py_int = (\<lambda>s. if s = ''2'' then Some 2 else if s = ''21'' then Some 21 else None),
                get_lang = (\<lambda>v. if v = ''en'' then Inr (Some ''english'') else Inl KeyError),
                fuzzy_bool = (\<lambda>v. if v = ''yes'' then Inr True else Inl ValueError),
                ENGLISH = ''english'',
                search = (\<lambda>title lang dub.
                  [Inr \<lparr>anime = ''a'', certainty = 50\<rparr>, Inr \<lparr>anime = ''b'', certainty = 90\<rparr>,
                   Inr \<lparr>anime = ''c'', certainty = 70\<rparr>, Inr \<lparr>anime = ''d'', certainty = 100\<rparr>]),
                preload_attrs = (\<lambda>a. Inr (a @ ''+''))\<rparr>;
        one = [''anime'' \<mapsto> ''naruto''];
        two = [''anime'' \<mapsto> ''naruto'', ''results'' \<mapsto> ''2''];
        many = [''anime'' \<mapsto> ''naruto'', ''results'' \<mapsto> ''21'']
    in get_int_param env one ''results'' (Some 1) = Inr 1
       \<and> search_anime env one = Inr [\<lparr>anime = ''b+'', certainty = 90::int\<rparr>]
       \<and> get_int_param env many ''results'' (Some 1) = Inr 21
       \<and> search_anime env many = Inl InvalidRequest
       \<and> search_anime env two
           = Inr [\<lparr>anime = ''b+'', certainty = 90\<rparr>, \<lparr>anime = ''c+'', certainty = 70\<rparr>]
       \<and> (\<exists>m. get_int_param env two ''results'' (Some 1) = Inr m \<and> 1 \<le> m \<and> m \<le> 20 \<and>
              int (length [\<lparr>anime = ''b+'', certainty = 90::int\<rparr>, \<lparr>anime = ''c+'', certainty = 70\<rparr>]) \<le> m)
       \<and> sorted_wrt (\<lambda>x y. x \<ge> y)
            (map certainty [\<lparr>anime = ''b+'', certainty = 90::int\<rparr>, \<lparr>anime = ''c+'', certainty = 70\<rparr>]))"
proof -
  define env :: "(string, string, int) collaborators" where "env = \<lparr>py_int = (\<lambda>s. if s = ''2'' then Some 2 else if s = ''21'' then Some 21 else None),
                get_lang = (\<lambda>v. if v = ''en'' then Inr (Some ''english'') else Inl KeyError),
                fuzzy_bool = (\<lambda>v. if v = ''yes'' then Inr True else Inl ValueError),
                ENGLISH = ''english'',
                search = (\<lambda>title lang dub.
                  [Inr \<lparr>anime = ''a'', certainty = 50\<rparr>, Inr \<lparr>anime = ''b'', certainty = 90\<rparr>,
                   Inr \<lparr>anime = ''c'', certainty = 70\<rparr>, Inr \<lparr>anime = ''d'', certainty = 100\<rparr>]),
                preload_attrs = (\<lambda>a. Inr (a @ ''+''))\<rparr>"
  define one :: request_args where "one = [''anime'' \<mapsto> ''naruto'']"
  define two :: request_args where "two = [''anime'' \<mapsto> ''naruto'', ''results'' \<mapsto> ''2'']"
  define many :: request_args where "many = [''anime'' \<mapsto> ''naruto'', ''results'' \<mapsto> ''21'']"
  define found where
    "found = [\<lparr>anime = ''b+'', certainty = 90::int\<rparr>, \<lparr>anime = ''c+'', certainty = 70\<rparr>]"
  have lang: "\<forall>v e. get_lang env v = Inl e \<longrightarrow> e \<in> {ValueError, TypeError, KeyError}"
    by (simp add: env_def)
  have dub: "\<forall>v e. fuzzy_bool env v = Inl e \<longrightarrow> e \<in> {ValueError, TypeError, KeyError}"
    by (simp add: env_def)
  have absent: "one ''results'' = None"
    by (simp add: one_def)
  have requested: "get_int_param env many ''results'' (Some 1) = Inr 21"
    by (simp add: get_int_param_def many_def env_def)
  have built: "build env args = Inr (Query ''naruto'' None None)"
    if "args ''uid'' = None" "args ''anime'' = Some ''naruto''" "args ''language'' = None"
      "args ''dubbed'' = None" for args
    using that by (simp add: build_def try_build_def UID_init_def Query_init_def)
  have b1: "build env one = Inr (Query ''naruto'' None None)"
    by (rule built) (simp_all add: one_def)
  have b2: "build env two = Inr (Query ''naruto'' None None)"
    by (rule built) (simp_all add: two_def)
  have sorted3: "py_sort_reverse certainty
      [\<lparr>anime = ''a'', certainty = 50::int\<rparr>, \<lparr>anime = ''b'', certainty = 90\<rparr>,
       \<lparr>anime = ''c'', certainty = 70\<rparr>]
      = [\<lparr>anime = ''b'', certainty = 90\<rparr>, \<lparr>anime = ''c'', certainty = 70\<rparr>,
         \<lparr>anime = ''a'', certainty = 50\<rparr>]"
    by (simp add: py_sort_reverse_def)
  have n1: "get_int_param env one ''results'' (Some 1) = Inr 1"
    by (simp add: get_int_param_def one_def)
  have n2: "get_int_param env two ''results'' (Some 1) = Inr 2"
    by (simp add: get_int_param_def two_def env_def)
  have title: "one ''anime'' = Some ''naruto''" "two ''anime'' = Some ''naruto''"
    by (simp_all add: one_def two_def)
  have pool: "results_pool (search env t l d) 3 []
      = Inr [\<lparr>anime = ''a'', certainty = 50::int\<rparr>, \<lparr>anime = ''b'', certainty = 90\<rparr>,
             \<lparr>anime = ''c'', certainty = 70\<rparr>]" for t l d
    by (simp add: env_def)
  have pre: "preload_attrs env a = Inr (a @ ''+'')" for a
    by (simp add: env_def)
  have r1: "search_anime env one = Inr [\<lparr>anime = ''b+'', certainty = 90::int\<rparr>]"
    by (simp add: search_anime_def b1 search_params_def n1 title pool sorted3 pre)
  have r2: "search_anime env two = Inr found"
    by (simp add: search_anime_def b2 search_params_def n2 title pool sorted3 pre found_def)
  note th = search_anime_count_in_range_sorted
  from th [of one env] absent have d: "get_int_param env one ''results'' (Some 1) = Inr 1"
    by blast
  from th [of many env 21] lang dub requested have refused: "search_anime env many = Inl InvalidRequest"
    by simp
  from th [of two env 0 found] r2 have
    within: "\<exists>m. get_int_param env two ''results'' (Some 1) = Inr m \<and> 1 \<le> m \<and> m \<le> 20 \<and>
              int (length found) \<le> m"
    and desc: "sorted_wrt (\<lambda>x y. x \<ge> y) (map certainty found)"
    by blast+
  from d r1 requested refused r2 within desc show ?thesis
    unfolding Let_def env_def [symmetric] found_def [symmetric]
    unfolding two_def [symmetric] many_def [symmetric]
    unfolding one_def [symmetric]
    by blast
qed

end
